theory Spec2Isabelle
  imports Complex_Main "HOL-Library.Word" "HOL-Library.Log_Nat" "HOL-Library.Multiset"
begin

unbundle bit_operations_syntax

section \<open>Data model (libtex3ds.h)\<close>

text \<open>
  \<^verbatim>\<open>using Quantum = uint8_t; static constexpr uint8_t QuantumRange = 255;\<close>
  Machine bytes are 8-bit words. \<^verbatim>\<open>size_t\<close> values (dimensions, strides, indices) are
  natural numbers: the dimensions that pass \<^verbatim>\<open>load_image\<close> are at most 1024, and the
  index computations on such images stay far below 2^64, where \<^verbatim>\<open>size_t\<close> would wrap
  around.
\<close>

type_synonym u8 = "8 word"
type_synonym u16 = "16 word"
type_synonym Quantum = u8

definition QuantumRange :: u8 where
  "QuantumRange = 255"

text \<open>
  \<^verbatim>\<open>struct RGBA { Quantum b, g, r, a; };\<close> The fields carry the prefix \<open>px_\<close>, since
  one-letter constants would capture the variables of every later statement.
\<close>

record RGBA =
  px_b :: Quantum
  px_g :: Quantum
  px_r :: Quantum
  px_a :: Quantum

text \<open>A value-initialised pixel, as \<^verbatim>\<open>std::vector::resize\<close> creates it.\<close>

definition RGBA_zero :: RGBA where
  "RGBA_zero = \<lparr>px_b = 0, px_g = 0, px_r = 0, px_a = 0\<rparr>"

text \<open>
  \<^verbatim>\<open>struct Image { size_t stride; size_t w; size_t h; std::vector<RGBA> pixels; }\<close>
  (fields prefixed with \<open>img_\<close> for the same reason).
\<close>

record Image =
  img_stride :: nat
  img_w :: nat
  img_h :: nat
  img_pixels :: "RGBA list"

text \<open>The constructor \<^verbatim>\<open>Image(size_t _w, size_t _h)\<close>: stride = w, w * h zeroed pixels.\<close>

definition Image_new :: "nat \<Rightarrow> nat \<Rightarrow> Image" where
  "Image_new w0 h0 =
     \<lparr>img_stride = w0, img_w = w0, img_h = h0, img_pixels = replicate (w0 * h0) RGBA_zero\<rparr>"

datatype ProcessFormat =
    RGBA8888 | RGB888 | RGBA5551 | RGB565 | RGBA4444 | LA88 | HILO88 | L8 | A8 | LA44 | L4 | A4
  | ETC1 | ETC1A4 | AUTO_L8 | AUTO_L4 | AUTO_ETC1

text \<open>The enumerators' values: 0x00 .. 0x0D are explicit, the three AUTO ones follow.\<close>

fun ProcessFormat_value :: "ProcessFormat \<Rightarrow> u8" where
  "ProcessFormat_value RGBA8888 = 0x00"
| "ProcessFormat_value RGB888 = 0x01"
| "ProcessFormat_value RGBA5551 = 0x02"
| "ProcessFormat_value RGB565 = 0x03"
| "ProcessFormat_value RGBA4444 = 0x04"
| "ProcessFormat_value LA88 = 0x05"
| "ProcessFormat_value HILO88 = 0x06"
| "ProcessFormat_value L8 = 0x07"
| "ProcessFormat_value A8 = 0x08"
| "ProcessFormat_value LA44 = 0x09"
| "ProcessFormat_value L4 = 0x0A"
| "ProcessFormat_value A4 = 0x0B"
| "ProcessFormat_value ETC1 = 0x0C"
| "ProcessFormat_value ETC1A4 = 0x0D"
| "ProcessFormat_value AUTO_L8 = 0x0E"
| "ProcessFormat_value AUTO_L4 = 0x0F"
| "ProcessFormat_value AUTO_ETC1 = 0x10"

datatype CompressionFormat =
    COMPRESSION_NONE | COMPRESSION_LZ10 | COMPRESSION_LZ11 | COMPRESSION_RLE | COMPRESSION_HUFF
  | COMPRESSION_AUTO

datatype etc1_quality = cLowQuality | cMediumQuality | cHighQuality

record Params =
  output_path :: string
  process_format :: ProcessFormat
  etc1_quality :: etc1_quality
  compression_format :: CompressionFormat
  input_img :: Image

section \<open>Errors\<close>

text \<open>
  \<open>RuntimeError msg\<close> is \<^verbatim>\<open>throw std::runtime_error (msg)\<close>, which \<^verbatim>\<open>Invocation::go\<close>
  catches. The other three are not exceptions and nothing catches them: \<open>OutOfBounds\<close> is an
  access outside a \<^verbatim>\<open>std::vector\<close>'s elements (undefined behaviour), \<open>AssertionFailed\<close> a
  failed \<^verbatim>\<open>assert\<close>, \<open>DivideByZero\<close> an integer division by zero.
\<close>

datatype error = RuntimeError string | OutOfBounds | AssertionFailed | DivideByZero

section \<open>Quantum conversions (quantum.h)\<close>

text \<open>
  \<^verbatim>\<open>template <int bits> uint8_t quantum_to_bits (Quantum v)
  { return (1 << bits) * v / (QuantumRange + 1); }\<close>
  The operands are promoted to \<^verbatim>\<open>int\<close>; the result is converted back to \<^verbatim>\<open>uint8_t\<close>
  (\<open>word_of_int\<close> reduces modulo 256). The template argument is the parameter \<open>bits\<close>.
\<close>

definition quantum_to_bits :: "nat \<Rightarrow> Quantum \<Rightarrow> u8" where
  "quantum_to_bits bits v = word_of_int ((2 ^ bits * uint v) div (uint QuantumRange + 1))"

text \<open>
  \<^verbatim>\<open>template <int bits> Quantum bits_to_quantum (uint8_t v)
  { return v * QuantumRange / ((1 << bits) - 1); }\<close>
  For \<open>bits = 0\<close> the divisor is zero.
\<close>

definition bits_to_quantum :: "nat \<Rightarrow> u8 \<Rightarrow> error + Quantum" where
  "bits_to_quantum bits v =
     (if (2 ^ bits - 1 :: int) = 0 then Inl DivideByZero
      else Inr (word_of_int ((uint v * uint QuantumRange) div (2 ^ bits - 1))))"

text \<open>\<^verbatim>\<open>quantize<bits> (v) = bits_to_quantum<bits> (quantum_to_bits<bits> (v))\<close>\<close>

definition quantize :: "nat \<Rightarrow> Quantum \<Rightarrow> error + Quantum" where
  "quantize bits v = bits_to_quantum bits (quantum_to_bits bits v)"

section \<open>Tile swizzle (swizzle.cpp)\<close>

text \<open>The swizzle foursome table, \<^verbatim>\<open>static const unsigned char table[][4]\<close>.\<close>

definition table :: "nat list list" where
  "table =
    [[ 2,  8, 16,  4],
     [ 3,  9, 17,  5],
     [ 6, 10, 24, 20],
     [ 7, 11, 25, 21],
     [14, 26, 28, 22],
     [15, 27, 29, 23],
     [34, 40, 48, 36],
     [35, 41, 49, 37],
     [38, 42, 56, 52],
     [39, 43, 57, 53],
     [46, 58, 60, 54],
     [47, 59, 61, 55]]"

text \<open>
  The tile routine works on 64 pointers \<^verbatim>\<open>RGBA* p[64]\<close>. A pointer is either the address
  of an element of \<^verbatim>\<open>img.pixels\<close> (its index) or the address of the local scratch pixel
  \<^verbatim>\<open>undef\<close>. The store holds what the pointers can reach: the pixel vector and the
  scratch pixel. Two pointers alias exactly when they are equal.
\<close>

datatype ref = Pixel nat | Undef

record store =
  st_pixels :: "RGBA list"
  st_undef :: RGBA

fun deref :: "store \<Rightarrow> ref \<Rightarrow> RGBA" where
  "deref s (Pixel k) = st_pixels s ! k"
| "deref s Undef = st_undef s"

fun assign :: "store \<Rightarrow> ref \<Rightarrow> RGBA \<Rightarrow> store" where
  "assign s (Pixel k) v = s\<lparr>st_pixels := (st_pixels s)[k := v]\<rparr>"
| "assign s Undef v = s\<lparr>st_undef := v\<rparr>"

text \<open>
  One iteration of the forward loop:
  \<^verbatim>\<open>tmp = *p[entry[0]]; *p[entry[0]] = *p[entry[1]]; *p[entry[1]] = *p[entry[2]];
  *p[entry[2]] = *p[entry[3]]; *p[entry[3]] = tmp;\<close>
\<close>

definition swizzle_entry :: "ref list \<Rightarrow> nat list \<Rightarrow> store \<Rightarrow> store" where
  "swizzle_entry p entry s0 =
     (let tmp = deref s0 (p ! (entry ! 0));
          s1 = assign s0 (p ! (entry ! 0)) (deref s0 (p ! (entry ! 1)));
          s2 = assign s1 (p ! (entry ! 1)) (deref s1 (p ! (entry ! 2)));
          s3 = assign s2 (p ! (entry ! 2)) (deref s2 (p ! (entry ! 3)))
      in assign s3 (p ! (entry ! 3)) tmp)"

text \<open>
  One iteration of the reverse loop:
  \<^verbatim>\<open>tmp = *p[entry[3]]; *p[entry[3]] = *p[entry[2]]; *p[entry[2]] = *p[entry[1]];
  *p[entry[1]] = *p[entry[0]]; *p[entry[0]] = tmp;\<close>
\<close>

definition unswizzle_entry :: "ref list \<Rightarrow> nat list \<Rightarrow> store \<Rightarrow> store" where
  "unswizzle_entry p entry s0 =
     (let tmp = deref s0 (p ! (entry ! 3));
          s1 = assign s0 (p ! (entry ! 3)) (deref s0 (p ! (entry ! 2)));
          s2 = assign s1 (p ! (entry ! 2)) (deref s1 (p ! (entry ! 1)));
          s3 = assign s2 (p ! (entry ! 1)) (deref s2 (p ! (entry ! 0)))
      in assign s3 (p ! (entry ! 0)) tmp)"

text \<open>\<^verbatim>\<open>std::swap (*x, *y)\<close>: \<^verbatim>\<open>tmp = *x; *x = *y; *y = tmp\<close>.\<close>

definition swap_px :: "ref \<Rightarrow> ref \<Rightarrow> store \<Rightarrow> store" where
  "swap_px x y s0 =
     (let tmp = deref s0 x;
          s1 = assign s0 x (deref s0 y)
      in assign s1 y tmp)"

text \<open>
  \<^verbatim>\<open>void swizzle (RGBA** p, bool reverse)\<close>: the twelve foursomes in table order, forward
  or reverse, then the four pair swaps.
\<close>

definition swizzle_tile :: "ref list \<Rightarrow> bool \<Rightarrow> store \<Rightarrow> store" where
  "swizzle_tile p reverse s0 =
     (let s1 = (if \<not> reverse then fold (swizzle_entry p) table s0
                else fold (unswizzle_entry p) table s0);
          s2 = swap_px (p ! 12) (p ! 18) s1;
          s3 = swap_px (p ! 13) (p ! 19) s2;
          s4 = swap_px (p ! 44) (p ! 50) s3
      in swap_px (p ! 45) (p ! 51) s4)"

text \<open>
  \<^verbatim>\<open>&v[i]\<close> on a \<^verbatim>\<open>std::vector\<close>: \<^verbatim>\<open>operator[]\<close> requires \<open>i < size\<close>.
\<close>

definition vec_at :: "'a list \<Rightarrow> nat \<Rightarrow> error + nat" where
  "vec_at v i = (if i < length v then Inr i else Inl OutOfBounds)"

text \<open>
  The body of the two innermost loops of the image routine, for one \<open>(j1, i1)\<close>:
  \<^verbatim>\<open>if (j + j1 < height && i + i1 < width)
    refs[j1 * 8 + i1] = &img.pixels[(j + j1) * img.stride + (i + i1)];
  else refs[j1 * 8 + i1] = &undef;\<close>
\<close>

definition define_ref :: "Image \<Rightarrow> nat \<Rightarrow> nat \<Rightarrow> nat \<Rightarrow> nat \<Rightarrow> nat \<Rightarrow> nat \<Rightarrow> error + ref" where
  "define_ref img height width j i j1 i1 =
     (if j + j1 < height \<and> i + i1 < width
      then (case vec_at (img_pixels img) ((j + j1) * img_stride img + (i + i1)) of
              Inl e \<Rightarrow> Inl e
            | Inr k \<Rightarrow> Inr (Pixel k))
      else Inr Undef)"

text \<open>The first error of a sequence of results, or all the values.\<close>

fun sequence_err :: "(error + 'a) list \<Rightarrow> error + 'a list" where
  "sequence_err [] = Inr []"
| "sequence_err (Inl e # rs) = Inl e"
| "sequence_err (Inr x # rs) = (case sequence_err rs of Inl e \<Rightarrow> Inl e | Inr xs \<Rightarrow> Inr (x # xs))"

text \<open>
  \<^verbatim>\<open>for (j1 = 0; j1 < 8; j1++) for (i1 = 0; i1 < 8; i1++) refs[j1 * 8 + i1] = ...\<close>:
  slot \<open>k = j1 * 8 + i1\<close> of \<open>refs\<close> is filled for \<open>j1 = k div 8\<close>, \<open>i1 = k mod 8\<close>, in
  increasing order of \<open>k\<close>.
\<close>

definition define_refs :: "Image \<Rightarrow> nat \<Rightarrow> nat \<Rightarrow> nat \<Rightarrow> nat \<Rightarrow> error + ref list" where
  "define_refs img height width j i =
     sequence_err (map (\<lambda>k. define_ref img height width j i (k div 8) (k mod 8)) [0..<64])"

text \<open>
  The loop \<^verbatim>\<open>for (size_t i = 0; i < width; i += 8)\<close> of the image routine, from column
  \<open>i\<close> on. The scratch pixel \<^verbatim>\<open>RGBA undef;\<close> is declared uninitialised in each iteration:
  \<open>undef0 j i\<close> is the value it happens to hold for the tile at \<open>(j, i)\<close>.
\<close>

function swizzle_cols ::
    "(nat \<Rightarrow> nat \<Rightarrow> RGBA) \<Rightarrow> bool \<Rightarrow> nat \<Rightarrow> nat \<Rightarrow> nat \<Rightarrow> nat \<Rightarrow> Image \<Rightarrow> error + Image" where
  "swizzle_cols undef0 reverse height width j i img =
     (if i < width
      then (case define_refs img height width j i of
              Inl e \<Rightarrow> Inl e
            | Inr refs \<Rightarrow>
                (let s = swizzle_tile refs reverse
                           \<lparr>st_pixels = img_pixels img, st_undef = undef0 j i\<rparr>
                 in swizzle_cols undef0 reverse height width j (i + 8)
                      (img\<lparr>img_pixels := st_pixels s\<rparr>)))
      else Inr img)"
  by pat_completeness auto
termination
  by (relation "measure (\<lambda>(undef0, reverse, height, width, j, i, img). width - i)") auto

text \<open>The loop \<^verbatim>\<open>for (size_t j = 0; j < height; j += 8)\<close>, from row \<open>j\<close> on.\<close>

function swizzle_rows ::
    "(nat \<Rightarrow> nat \<Rightarrow> RGBA) \<Rightarrow> bool \<Rightarrow> nat \<Rightarrow> nat \<Rightarrow> nat \<Rightarrow> Image \<Rightarrow> error + Image" where
  "swizzle_rows undef0 reverse height width j img =
     (if j < height
      then (case swizzle_cols undef0 reverse height width j 0 img of
              Inl e \<Rightarrow> Inl e
            | Inr img' \<Rightarrow> swizzle_rows undef0 reverse height width (j + 8) img')
      else Inr img)"
  by pat_completeness auto
termination
  by (relation "measure (\<lambda>(undef0, reverse, height, width, j, img). height - j)") auto

text \<open>\<^verbatim>\<open>void swizzle (Image &img, bool reverse)\<close>; the updated image is returned.\<close>

definition swizzle :: "(nat \<Rightarrow> nat \<Rightarrow> RGBA) \<Rightarrow> Image \<Rightarrow> bool \<Rightarrow> error + Image" where
  "swizzle undef0 img reverse = swizzle_rows undef0 reverse (img_h img) (img_w img) 0 img"

declare swizzle_cols.simps [simp del]
declare swizzle_rows.simps [simp del]

section \<open>The program (tex3ds.cpp)\<close>

subsection \<open>Types declared in headers outside the sources\<close>

text \<open>
  Modelled from the spec: \<^verbatim>\<open>SubImage\<close> (subimage.h), which the sources only construct and
  read. Section 3 describes it: a texture-coordinate rectangle of four normalised floats
  (left, top, right, bottom), a rotation flag, an index and a name. The constructor call in
  \<^verbatim>\<open>load_image\<close> gives the order index, name, left, top, right, bottom, rotated.
  \<^verbatim>\<open>float\<close> and \<^verbatim>\<open>double\<close> values are modelled by real numbers: rounding is not
  modelled.
\<close>

record SubImage =
  sub_index :: nat
  sub_name :: string
  sub_left :: real
  sub_top :: real
  sub_right :: real
  sub_bottom :: real
  sub_rotated :: bool

text \<open>
  The tile encoders \<^verbatim>\<open>encode::rgba8888\<close>, ... (encode.h) that \<^verbatim>\<open>process_image\<close> selects
  through a function pointer; the pointer is the encoder's name.
\<close>

datatype process_fn =
    encode_rgba8888 | encode_rgb888 | encode_rgba5551 | encode_rgb565 | encode_rgba4444
  | encode_la88 | encode_hilo88 | encode_l8 | encode_a8 | encode_la44 | encode_l4 | encode_a4
  | encode_etc1 | encode_etc1a4

text \<open>
  Modelled from the spec: \<^verbatim>\<open>encode::WorkUnit\<close> (encode.h), by the constructor call in
  \<^verbatim>\<open>process_image\<close> and section 3: the sequence number, the pixel pointer (the offset of
  the tile's first pixel in \<^verbatim>\<open>img.pixels\<close>), the stride, the ETC1 quality, the output and
  preview flags and the encoder. The result buffer is what the encoder returns.
\<close>

record WorkUnit =
  wu_sequence :: nat
  wu_p :: nat
  wu_stride :: nat
  wu_etc1_quality :: etc1_quality
  wu_output :: bool
  wu_preview :: bool
  wu_process :: process_fn

text \<open>
  What the program calls but the sources do not define is a parameter of the model:
  \<^item> \<open>encode_tile f work pixels\<close>: the bytes the encoder \<open>f\<close> leaves in
    \<^verbatim>\<open>work.result\<close> (section 4.3: no side effect beyond the result buffer);
  \<^item> the four codecs of compress.h, each from the source bytes to the compressed buffer
    (empty on failure);
  \<^item> \<open>encode_subimage sub width height\<close>: the bytes \<^verbatim>\<open>encode::encode (sub, width,
    height, buf)\<close> appends;
  \<^item> \<open>undef_pixel\<close>: the content of the uninitialised scratch pixel of the swizzle;
  \<^item> \<open>fopen_ok path\<close>: whether \<^verbatim>\<open>std::fopen (path, "wb")\<close> succeeds;
  \<^item> \<open>fwrite_rc len n\<close>: how many of \<open>n\<close> requested bytes \<^verbatim>\<open>std::fwrite\<close> accepts when
    the file holds \<open>len\<close> bytes (0 is the error return).
\<close>

record env =
  encode_tile :: "process_fn \<Rightarrow> WorkUnit \<Rightarrow> RGBA list \<Rightarrow> u8 list"
  lzssEncode :: "u8 list \<Rightarrow> u8 list"
  lz11Encode :: "u8 list \<Rightarrow> u8 list"
  huffEncode :: "u8 list \<Rightarrow> u8 list"
  rleEncode :: "u8 list \<Rightarrow> u8 list"
  encode_subimage :: "SubImage \<Rightarrow> u16 \<Rightarrow> u16 \<Rightarrow> u8 list"
  undef_pixel :: "nat \<Rightarrow> nat \<Rightarrow> RGBA"
  fopen_ok :: "string \<Rightarrow> bool"
  fwrite_rc :: "nat \<Rightarrow> nat \<Rightarrow> nat"

text \<open>
  The world outside the process: the files by path, the lines printed to the two standard
  streams, and whether \<^verbatim>\<open>rg_etc1::pack_etc1_block_init\<close> has run.
\<close>

record world =
  files :: "string \<Rightarrow> u8 list option"
  out_lines :: "string list"
  err_lines :: "string list"
  etc1_initialized :: bool

subsection \<open>potCeil\<close>

text \<open>
  \<^verbatim>\<open>if (x < 8) return 8; return std::pow (2.0, std::ceil (std::log2 (x)));\<close>
  The \<^verbatim>\<open>double\<close> computation is taken over the reals; the conversion of the result to
  \<^verbatim>\<open>size_t\<close> truncates.
\<close>

definition potCeil :: "nat \<Rightarrow> nat" where
  "potCeil x = (if x < 8 then 8 else nat \<lfloor>2 powr real_of_int \<lceil>log 2 (real x)\<rceil>\<rfloor>)"

subsection \<open>The invocation\<close>

record Invocation =
  output_raw :: bool
  subimage_data :: "SubImage list"
  image_data :: "u8 list"
  output_width :: nat
  output_height :: nat

text \<open>
  A fresh \<^verbatim>\<open>Invocation\<close>. The constructor leaves \<^verbatim>\<open>output_width\<close> and
  \<^verbatim>\<open>output_height\<close> uninitialised; \<^verbatim>\<open>load_image\<close> writes them before anything reads them.
\<close>

definition Invocation_init :: Invocation where
  "Invocation_init =
     \<lparr>output_raw = False, subimage_data = [], image_data = [], output_width = 0,
      output_height = 0\<rparr>"

definition max_image_height :: nat where
  "max_image_height = 1024"

definition max_image_width :: nat where
  "max_image_width = 1024"

subsection \<open>load\_image\<close>

text \<open>
  \<^verbatim>\<open>memcpy (&dst[d], &src[s], n * sizeof (RGBA))\<close> on pixel vectors: \<open>n\<close> pixels are
  read from index \<open>s\<close> of \<open>src\<close> on and written from index \<open>d\<close> of \<open>dst\<close> on. Both
  addresses are taken with \<^verbatim>\<open>operator[]\<close>, and every pixel read or written has to be an
  element of its vector.
\<close>

definition memcpy_px :: "RGBA list \<Rightarrow> nat \<Rightarrow> RGBA list \<Rightarrow> nat \<Rightarrow> nat \<Rightarrow> error + RGBA list" where
  "memcpy_px dst d src s n =
     (case vec_at dst d of
        Inl e \<Rightarrow> Inl e
      | Inr d' \<Rightarrow>
          (case vec_at src s of
             Inl e \<Rightarrow> Inl e
           | Inr s' \<Rightarrow>
               (if s' + n \<le> length src \<and> d' + n \<le> length dst
                then Inr (take d' dst @ take n (drop s' src) @ drop (d' + n) dst)
                else Inl OutOfBounds)))"

text \<open>
  The loop of the canvas expansion, from row \<open>r\<close> on:
  \<^verbatim>\<open>for (size_t r = 0; r < image_height; r++)
    memcpy (&new_img.pixels[new_img.stride * r], &img.pixels[img.stride * r],
            img.stride * r * sizeof (RGBA));\<close>
\<close>

function copy_rows :: "Image \<Rightarrow> Image \<Rightarrow> nat \<Rightarrow> nat \<Rightarrow> error + Image" where
  "copy_rows new_img img image_height r =
     (if r < image_height
      then (case memcpy_px (img_pixels new_img) (img_stride new_img * r)
                   (img_pixels img) (img_stride img * r) (img_stride img * r) of
              Inl e \<Rightarrow> Inl e
            | Inr px \<Rightarrow> copy_rows (new_img\<lparr>img_pixels := px\<rparr>) img image_height (r + 1))
      else Inr new_img)"
  by pat_completeness auto
termination
  by (relation "measure (\<lambda>(new_img, img, image_height, r). image_height - r)") auto

declare copy_rows.simps [simp del]

text \<open>
  \<^verbatim>\<open>Image Invocation::load_image (const Image &img)\<close>. The two checks compare the
  dimensions as \<^verbatim>\<open>double\<close> with 1024; the conversion is monotone and exact up to 2^53, so
  the comparison is the one on the integers. The invocation's new state is returned with the
  image.
\<close>

definition load_image :: "Invocation \<Rightarrow> Image \<Rightarrow> error + (Invocation \<times> Image)" where
  "load_image self img =
     (if img_w img > max_image_width then Inl (RuntimeError ''Invalid width'')
      else if img_h img > max_image_height then Inl (RuntimeError ''Invalid height'')
      else
        (let self1 = self\<lparr>output_width := potCeil (img_w img),
                        output_height := potCeil (img_h img)\<rparr>;
             image_width = img_w img;
             image_height = img_h img
         in if subimage_data self1 \<noteq> [] then Inl AssertionFailed
            else
              (let self2 = self1\<lparr>subimage_data := subimage_data self1 @
                            [\<lparr>sub_index = 0, sub_name = '''', sub_left = 0, sub_top = 1,
                              sub_right = real image_width / real (output_width self1),
                              sub_bottom = 1 - real image_height / real (output_height self1),
                              sub_rotated = False\<rparr>]\<rparr>
               in if image_width \<noteq> output_width self2 \<or> image_height \<noteq> output_height self2
                  then (case copy_rows (Image_new (output_width self2) (output_height self2))
                               img image_height 0 of
                          Inl e \<Rightarrow> Inl e
                        | Inr new_img \<Rightarrow> Inr (self2, new_img))
                  else Inr (self2, img))))"

subsection \<open>process\_image\<close>

text \<open>The \<^verbatim>\<open>switch (params.process_format)\<close> that selects the processing routine.\<close>

fun select_process :: "ProcessFormat \<Rightarrow> process_fn" where
  "select_process RGBA8888 = encode_rgba8888"
| "select_process RGB888 = encode_rgb888"
| "select_process RGBA5551 = encode_rgba5551"
| "select_process RGB565 = encode_rgb565"
| "select_process RGBA4444 = encode_rgba4444"
| "select_process AUTO_L8 = encode_la88"
| "select_process LA88 = encode_la88"
| "select_process HILO88 = encode_hilo88"
| "select_process L8 = encode_l8"
| "select_process A8 = encode_a8"
| "select_process AUTO_L4 = encode_la44"
| "select_process LA44 = encode_la44"
| "select_process L4 = encode_l4"
| "select_process A4 = encode_a4"
| "select_process ETC1 = encode_etc1"
| "select_process AUTO_ETC1 = encode_etc1a4"
| "select_process ETC1A4 = encode_etc1a4"

text \<open>
  The work unit of the tile at \<open>(j, i)\<close>:
  \<^verbatim>\<open>encode::WorkUnit work (num_work++, img.pixels.data () + (j * width + i), width,
    params.etc1_quality, !params.output_path.empty (), false, process);\<close>
\<close>

definition make_work :: "Params \<Rightarrow> process_fn \<Rightarrow> nat \<Rightarrow> nat \<Rightarrow> nat \<Rightarrow> nat \<Rightarrow> WorkUnit" where
  "make_work params process num_work width j i =
     \<lparr>wu_sequence = num_work, wu_p = j * width + i, wu_stride = width,
      wu_etc1_quality = etc1_quality params, wu_output = (output_path params \<noteq> []),
      wu_preview = False, wu_process = process\<rparr>"

text \<open>
  The inner tile loop \<^verbatim>\<open>for (size_t i = 0; i < width; i += 8)\<close>, from column \<open>i\<close> on.
  The state is the counter \<^verbatim>\<open>num_work\<close> and the output buffer \<^verbatim>\<open>image_data\<close>, to which
  each work unit's result is appended.
\<close>

function process_cols ::
    "env \<Rightarrow> Params \<Rightarrow> process_fn \<Rightarrow> Image \<Rightarrow> nat \<Rightarrow> nat \<Rightarrow> nat \<Rightarrow> nat \<times> u8 list \<Rightarrow> nat \<times> u8 list"
  where
  "process_cols E params process img width j i st =
     (if i < width
      then (let work = make_work params process (fst st) width j i;
                result = encode_tile E (wu_process work) work (img_pixels img)
            in process_cols E params process img width j (i + 8) (fst st + 1, snd st @ result))
      else st)"
  by pat_completeness auto
termination
  by (relation "measure (\<lambda>(E, params, process, img, width, j, i, st). width - i)") auto

text \<open>The outer tile loop \<^verbatim>\<open>for (size_t j = 0; j < height; j += 8)\<close>, from row \<open>j\<close> on.\<close>

function process_rows ::
    "env \<Rightarrow> Params \<Rightarrow> process_fn \<Rightarrow> Image \<Rightarrow> nat \<Rightarrow> nat \<Rightarrow> nat \<Rightarrow> nat \<times> u8 list \<Rightarrow> nat \<times> u8 list"
  where
  "process_rows E params process img height width j st =
     (if j < height
      then process_rows E params process img height width (j + 8)
             (process_cols E params process img width j 0 st)
      else st)"
  by pat_completeness auto
termination
  by (relation "measure (\<lambda>(E, params, process, img, height, width, j, st). height - j)") auto

declare process_cols.simps [simp del]
declare process_rows.simps [simp del]

text \<open>
  \<^verbatim>\<open>void Invocation::process_image (Image &img)\<close>. The image is passed by reference and
  swizzled in place, so the model returns it with the invocation. The two \<^verbatim>\<open>assert\<close>s are
  checked as in a build without \<^verbatim>\<open>NDEBUG\<close>.
\<close>

definition process_image ::
    "env \<Rightarrow> Params \<Rightarrow> Invocation \<Rightarrow> Image \<Rightarrow> error + (Invocation \<times> Image)" where
  "process_image E params self img =
     (let process = select_process (process_format params);
          width = img_w img;
          height = img_h img
      in if width mod 8 \<noteq> 0 then Inl AssertionFailed
         else if height mod 8 \<noteq> 0 then Inl AssertionFailed
         else
           (case (if process_format params \<noteq> ETC1 \<and> process_format params \<noteq> ETC1A4
                  then swizzle (undef_pixel E) img False
                  else Inr img) of
              Inl e \<Rightarrow> Inl e
            | Inr img1 \<Rightarrow>
                (let st = process_rows E params process img1 height width 0 (0, image_data self)
                 in Inr (self\<lparr>image_data := snd st\<rparr>, img1))))"

subsection \<open>Writing the output\<close>

text \<open>
  \<^verbatim>\<open>void write_buffer (FILE *fp, const void *buffer, size_t size)\<close>, from position \<open>pos\<close>
  on. The open file is named by its path; the buffer and its size are the list \<open>buf\<close>.
  \<^verbatim>\<open>std::fwrite\<close> accepts at most what is requested; its return value 0 is the case
  \<^verbatim>\<open>rc <= 0\<close>, where the file is closed and the exception thrown. What was written before
  stays in the file.
\<close>

function write_buffer ::
    "env \<Rightarrow> string \<Rightarrow> u8 list \<Rightarrow> nat \<Rightarrow> world \<Rightarrow> (error + unit) \<times> world" where
  "write_buffer E fp buf pos W =
     (if pos < length buf
      then (if min (fwrite_rc E (length (case files W fp of None \<Rightarrow> [] | Some c \<Rightarrow> c))
                      (length buf - pos)) (length buf - pos) = 0
            then (Inl (RuntimeError ''Failed to output data''), W)
            else write_buffer E fp buf
                   (pos + min (fwrite_rc E (length (case files W fp of None \<Rightarrow> [] | Some c \<Rightarrow> c))
                                 (length buf - pos)) (length buf - pos))
                   (W\<lparr>files := (files W)(fp \<mapsto>
                        (case files W fp of None \<Rightarrow> [] | Some c \<Rightarrow> c) @
                        take (min (fwrite_rc E (length (case files W fp of None \<Rightarrow> [] | Some c \<Rightarrow> c))
                                     (length buf - pos)) (length buf - pos))
                          (drop pos buf))\<rparr>))
      else (Inr (), W))"
  by pat_completeness auto
termination
  by (relation "measure (\<lambda>(E, fp, buf, pos, W). length buf - pos)") auto

declare write_buffer.simps [simp del]

text \<open>
  Modelled from the spec: \<^verbatim>\<open>encode::encode<uint16_t>\<close> and \<^verbatim>\<open>encode::encode<uint8_t>\<close>
  (encode.h) append an integer to the buffer; section 6 fixes the byte order: all multi-byte
  integers are little-endian.
\<close>

definition encode_u16 :: "u16 \<Rightarrow> u8 list" where
  "encode_u16 v = [ucast v, ucast (drop_bit 8 v)]"

definition encode_u8 :: "u8 \<Rightarrow> u8 list" where
  "encode_u8 v = [v]"

text \<open>
  \<^verbatim>\<open>uint8_t w = std::log (static_cast<double> (x)) / std::log (2.0);\<close> over the reals,
  truncated to a byte.
\<close>

definition log2_u8 :: "nat \<Rightarrow> u8" where
  "log2_u8 x = word_of_int \<lfloor>ln (real x) / ln 2\<rfloor>"

text \<open>
  The byte \<^verbatim>\<open>texture_params\<close> of the header, from the two logarithms:
  \<^verbatim>\<open>texture_params |= (w - 3) << 0; texture_params |= (h - 3) << 3;\<close>
  with the operands promoted to \<^verbatim>\<open>int\<close> and the result cut to a byte.
\<close>

definition texture_params_of :: "u8 \<Rightarrow> u8 \<Rightarrow> u8" where
  "texture_params_of w0 h0 =
     (let tp0 = (0 :: u8);
          tp1 = (word_of_int (uint tp0 OR push_bit 0 (uint w0 - 3)) :: u8);
          tp2 = (word_of_int (uint tp1 OR push_bit 3 (uint h0 - 3)) :: u8)
      in tp2)"

text \<open>
  The pixel size of a sub-image in the header loop, each product converted from
  \<^verbatim>\<open>float\<close> to \<^verbatim>\<open>uint16_t\<close>:
  \<^verbatim>\<open>if (sub.rotated) { height = (sub.bottom - sub.top) * output_width;
                       width  = (sub.right - sub.left) * output_height; }
  else { width  = (sub.right - sub.left) * output_width;
         height = (sub.top - sub.bottom) * output_height; }\<close>
\<close>

definition subimage_size :: "nat \<Rightarrow> nat \<Rightarrow> SubImage \<Rightarrow> u16 \<times> u16" where
  "subimage_size ow oh sub =
     (if sub_rotated sub
      then (word_of_int \<lfloor>(sub_right sub - sub_left sub) * real oh\<rfloor>,
            word_of_int \<lfloor>(sub_bottom sub - sub_top sub) * real ow\<rfloor>)
      else (word_of_int \<lfloor>(sub_right sub - sub_left sub) * real ow\<rfloor>,
            word_of_int \<lfloor>(sub_top sub - sub_bottom sub) * real oh\<rfloor>))"

text \<open>
  \<^verbatim>\<open>void Invocation::write_tex3ds_header (FILE *fp)\<close>. The \<^verbatim>\<open>assert\<close>s are checked; the
  debug print of each sub-image is left out.
\<close>

definition write_tex3ds_header ::
    "env \<Rightarrow> Params \<Rightarrow> Invocation \<Rightarrow> string \<Rightarrow> world \<Rightarrow> (error + unit) \<times> world" where
  "write_tex3ds_header E params self fp W =
     (let buf0 = encode_u16 (of_nat (length (subimage_data self)))
      in if \<not> 8 \<le> output_width self then (Inl AssertionFailed, W)
         else if \<not> output_width self \<le> 1024 then (Inl AssertionFailed, W)
         else if \<not> 8 \<le> output_height self then (Inl AssertionFailed, W)
         else if \<not> output_height self \<le> 1024 then (Inl AssertionFailed, W)
         else
           (let w0 = log2_u8 (output_width self);
                h0 = log2_u8 (output_height self)
            in if \<not> 3 \<le> w0 then (Inl AssertionFailed, W)
               else if \<not> w0 \<le> 10 then (Inl AssertionFailed, W)
               else if \<not> 3 \<le> h0 then (Inl AssertionFailed, W)
               else if \<not> h0 \<le> 10 then (Inl AssertionFailed, W)
               else
                 (let buf1 = buf0 @ encode_u8 (texture_params_of w0 h0);
                      buf2 = buf1 @ encode_u8 (ProcessFormat_value (process_format params));
                      num_mipmaps = (0 :: u8);
                      buf3 = buf2 @ encode_u8 num_mipmaps;
                      buf4 = buf3 @ concat (map (\<lambda>sub.
                               encode_subimage E sub
                                 (fst (subimage_size (output_width self) (output_height self) sub))
                                 (snd (subimage_size (output_width self) (output_height self) sub)))
                               (subimage_data self))
                  in write_buffer E fp buf4 0 W)))"

subsection \<open>Compression\<close>

text \<open>
  Modelled from the spec: \<^verbatim>\<open>compressionHeader (buffer, type, size)\<close> (compress.h) appends
  the envelope header. Sections 3 and 6: the envelope carries a codec tag byte (0x00 for
  none) and the uncompressed length in a 3-byte field, little-endian.
\<close>

definition compressionHeader :: "u8 list \<Rightarrow> u8 \<Rightarrow> nat \<Rightarrow> u8 list" where
  "compressionHeader buffer type size0 =
     buffer @ [type, of_nat size0, of_nat (size0 div 256), of_nat (size0 div 65536)]"

text \<open>
  \<^verbatim>\<open>std::vector<uint8_t> compressNone (const void *src, size_t len)\<close>. The pair of the
  pointer and the length is the list of the \<open>len\<close> bytes at \<open>src\<close>. The test
  \<^verbatim>\<open>result.size () & 0x3\<close> is \<open>mod 4\<close>, \<^verbatim>\<open>(result.size () + 3) & ~0x3\<close> rounds down to a
  multiple of 4, and \<^verbatim>\<open>resize\<close> fills with zero bytes.
\<close>

definition compressNone :: "u8 list \<Rightarrow> u8 list" where
  "compressNone src =
     (let result0 = compressionHeader [] 0x00 (length src);
          result1 = result0 @ src
      in if length result1 mod 4 \<noteq> 0
         then result1 @
              replicate ((length result1 + 3) - (length result1 + 3) mod 4 - length result1) 0
         else result1)"

text \<open>The table \<^verbatim>\<open>compress_funcs\<close> of \<^verbatim>\<open>compressAuto\<close>, in its order.\<close>

definition compress_funcs :: "env \<Rightarrow> ((u8 list \<Rightarrow> u8 list) \<times> string) list" where
  "compress_funcs E =
     [(compressNone, ''none''),
      (lzssEncode E, ''lzss''),
      (lz11Encode E, ''lz11''),
      (huffEncode E, ''huff''),
      (rleEncode E, ''rle'')]"

text \<open>
  One iteration of the loop of \<^verbatim>\<open>compressAuto\<close>, on the state \<open>(best, best_type)\<close>:
  \<^verbatim>\<open>output = compress.first (src, len);
  if (best.empty () || (!output.empty () && output.size () < best.size ()))
  { best.swap (output); best_type = compress.second; }\<close>
  \<open>None\<close> is the initial \<^verbatim>\<open>nullptr\<close> of \<^verbatim>\<open>best_type\<close>.
\<close>

definition compressAuto_step ::
    "u8 list \<Rightarrow> u8 list \<times> string option \<Rightarrow> (u8 list \<Rightarrow> u8 list) \<times> string
      \<Rightarrow> u8 list \<times> string option" where
  "compressAuto_step src st compress =
     (let output = fst compress src
      in if fst st = [] \<or> (output \<noteq> [] \<and> length output < length (fst st))
         then (output, Some (snd compress))
         else st)"

definition compressAuto_loop :: "env \<Rightarrow> u8 list \<Rightarrow> u8 list \<times> string option" where
  "compressAuto_loop E src = foldl (compressAuto_step src) ([], None) (compress_funcs E)"

text \<open>
  \<^verbatim>\<open>std::vector<uint8_t> compressAuto (const void *src, size_t len)\<close>: the loop, the
  line printed to the standard output, and the best buffer.
\<close>

definition compressAuto :: "env \<Rightarrow> u8 list \<Rightarrow> world \<Rightarrow> u8 list \<times> world" where
  "compressAuto E src W =
     (let st = compressAuto_loop E src
      in (fst st,
          W\<lparr>out_lines := out_lines W @
              [''Used '' @ (case snd st of None \<Rightarrow> ''(null)'' | Some t \<Rightarrow> t) @
               '' for compression'']\<rparr>))"

text \<open>The \<^verbatim>\<open>switch (params.compression_format)\<close> of \<^verbatim>\<open>write_image_data\<close>, applied.\<close>

fun compress :: "env \<Rightarrow> CompressionFormat \<Rightarrow> u8 list \<Rightarrow> world \<Rightarrow> u8 list \<times> world" where
  "compress E COMPRESSION_NONE src W = (compressNone src, W)"
| "compress E COMPRESSION_LZ10 src W = (lzssEncode E src, W)"
| "compress E COMPRESSION_LZ11 src W = (lz11Encode E src, W)"
| "compress E COMPRESSION_RLE src W = (rleEncode E src, W)"
| "compress E COMPRESSION_HUFF src W = (huffEncode E src, W)"
| "compress E COMPRESSION_AUTO src W = compressAuto E src W"

text \<open>
  \<^verbatim>\<open>void Invocation::write_image_data (FILE *fp)\<close>. The \<^verbatim>\<open>default: std::abort ()\<close> of
  the switch has no enumerator to reach it.
\<close>

definition write_image_data ::
    "env \<Rightarrow> Params \<Rightarrow> Invocation \<Rightarrow> string \<Rightarrow> world \<Rightarrow> (error + unit) \<times> world" where
  "write_image_data E params self fp W =
     (let r = compress E (compression_format params) (image_data self) W;
          buffer = fst r;
          W1 = snd r
      in if buffer = [] then (Inl (RuntimeError ''Failed to compress data''), W1)
         else write_buffer E fp buffer 0 W1)"

text \<open>
  \<^verbatim>\<open>void Invocation::write_output_data ()\<close>. \<^verbatim>\<open>std::fopen (path, "wb")\<close> creates the
  file or empties it.
\<close>

definition write_output_data ::
    "env \<Rightarrow> Params \<Rightarrow> Invocation \<Rightarrow> world \<Rightarrow> (error + unit) \<times> world" where
  "write_output_data E params self W =
     (if output_path params = [] then (Inr (), W)
      else if \<not> fopen_ok E (output_path params)
      then (Inl (RuntimeError ''Failed to open output file''), W)
      else
        (let fp = output_path params;
             W0 = W\<lparr>files := (files W)(fp \<mapsto> [])\<rparr>;
             r1 = (if \<not> output_raw self then write_tex3ds_header E params self fp W0
                   else (Inr (), W0))
         in case fst r1 of
              Inl e \<Rightarrow> (Inl e, snd r1)
            | Inr u \<Rightarrow> write_image_data E params self fp (snd r1)))"

subsection \<open>go\<close>

definition EXIT_SUCCESS :: int where
  "EXIT_SUCCESS = 0"

definition EXIT_FAILURE :: int where
  "EXIT_FAILURE = 1"

text \<open>
  The two \<^verbatim>\<open>catch\<close> clauses of \<^verbatim>\<open>go\<close>: a thrown exception prints its message to the
  standard error and gives \<^verbatim>\<open>EXIT_FAILURE\<close>. Undefined behaviour and a failed assertion
  are not exceptions: the run has no exit status then.
\<close>

fun catch_all :: "error \<Rightarrow> world \<Rightarrow> error + (int \<times> world)" where
  "catch_all (RuntimeError msg) W = Inr (EXIT_FAILURE, W\<lparr>err_lines := err_lines W @ [msg]\<rparr>)"
| "catch_all e W = Inl e"

text \<open>\<^verbatim>\<open>int Invocation::go ()\<close>, on the invocation \<open>self\<close> and the world \<open>W\<close>.\<close>

definition go :: "env \<Rightarrow> Params \<Rightarrow> Invocation \<Rightarrow> world \<Rightarrow> error + (int \<times> world)" where
  "go E params self W =
     (let W0 = (if process_format params = ETC1 \<or> process_format params = ETC1A4
                   \<or> process_format params = AUTO_ETC1
                then W\<lparr>etc1_initialized := True\<rparr> else W)
      in case load_image self (input_img params) of
           Inl e \<Rightarrow> catch_all e W0
         | Inr (self1, img) \<Rightarrow>
             (case process_image E params self1 img of
                Inl e \<Rightarrow> catch_all e W0
              | Inr (self2, img2) \<Rightarrow>
                  (case write_output_data E params self2 W0 of
                     (Inl e, W1) \<Rightarrow> catch_all e W1
                   | (Inr u, W1) \<Rightarrow> Inr (EXIT_SUCCESS, W1))))"

text \<open>\<^verbatim>\<open>bool Process (const Params& params)\<close>: a fresh invocation, then \<^verbatim>\<open>go\<close>.\<close>

definition Process :: "env \<Rightarrow> Params \<Rightarrow> world \<Rightarrow> error + (bool \<times> world)" where
  "Process E params W =
     (case go E params Invocation_init W of
        Inl e \<Rightarrow> Inl e
      | Inr (rc, W1) \<Rightarrow> Inr (rc = EXIT_SUCCESS, W1))"

section \<open>Notions for stating the swizzle properties\<close>

text \<open>
  The tile routine on a tile held by value: the list \<open>t\<close> holds the 64 pixels the pointers
  \<^verbatim>\<open>p[0]\<close>, ..., \<^verbatim>\<open>p[63]\<close> point to, and each assignment through \<^verbatim>\<open>p[k]\<close> becomes an
  update at position \<open>k\<close>. The statements are the same as those of \<open>swizzle_entry\<close>,
  \<open>unswizzle_entry\<close>, \<open>swap_px\<close> and \<open>swizzle_tile\<close>; the lemmas of the section on one
  tile show that the pointer version acts like this one when no two pointers alias.
\<close>

definition swizzle_entry_list :: "nat list \<Rightarrow> 'a list \<Rightarrow> 'a list" where
  "swizzle_entry_list entry t0 =
     (let tmp = t0 ! (entry ! 0);
          t1 = t0[entry ! 0 := t0 ! (entry ! 1)];
          t2 = t1[entry ! 1 := t1 ! (entry ! 2)];
          t3 = t2[entry ! 2 := t2 ! (entry ! 3)]
      in t3[entry ! 3 := tmp])"

definition unswizzle_entry_list :: "nat list \<Rightarrow> 'a list \<Rightarrow> 'a list" where
  "unswizzle_entry_list entry t0 =
     (let tmp = t0 ! (entry ! 3);
          t1 = t0[entry ! 3 := t0 ! (entry ! 2)];
          t2 = t1[entry ! 2 := t1 ! (entry ! 1)];
          t3 = t2[entry ! 1 := t2 ! (entry ! 0)]
      in t3[entry ! 0 := tmp])"

definition swap_list :: "nat \<Rightarrow> nat \<Rightarrow> 'a list \<Rightarrow> 'a list" where
  "swap_list x y t0 = (let tmp = t0 ! x; t1 = t0[x := t0 ! y] in t1[y := tmp])"

definition swizzle_list :: "bool \<Rightarrow> 'a list \<Rightarrow> 'a list" where
  "swizzle_list reverse t0 =
     (let t1 = (if \<not> reverse then fold swizzle_entry_list table t0
                else fold unswizzle_entry_list table t0);
          t2 = swap_list 12 18 t1;
          t3 = swap_list 13 19 t2;
          t4 = swap_list 44 50 t3
      in swap_list 45 51 t4)"

text \<open>What the pointers \<open>p\<close> see in the store \<open>s\<close>, and that each of them is valid.\<close>

definition view :: "ref list \<Rightarrow> store \<Rightarrow> RGBA list" where
  "view p s = map (deref s) p"

definition refs_ok :: "ref list \<Rightarrow> store \<Rightarrow> bool" where
  "refs_ok p s = (\<forall>k. Pixel k \<in> set p \<longrightarrow> k < length (st_pixels s))"

text \<open>
  The index in \<^verbatim>\<open>img.pixels\<close> of slot \<open>k\<close> of the tile at \<open>(j, i)\<close>, as \<open>define_ref\<close>
  computes it, and the 64 indices of the tile.
\<close>

definition tile_index :: "nat \<Rightarrow> nat \<Rightarrow> nat \<Rightarrow> nat \<Rightarrow> nat" where
  "tile_index stride j i k = (j + k div 8) * stride + (i + k mod 8)"

definition tile_indices :: "nat \<Rightarrow> nat \<Rightarrow> nat \<Rightarrow> nat list" where
  "tile_indices stride j i = map (tile_index stride j i) [0..<64]"

text \<open>
  The pixels \<open>ps'\<close> are the pixels \<open>ps\<close> with the tiles at the origins \<open>T\<close> swizzled: each
  of these tiles holds the list version's result, and every other pixel is unchanged.
\<close>

definition swizzled :: "nat \<Rightarrow> bool \<Rightarrow> (nat \<times> nat) set \<Rightarrow> RGBA list \<Rightarrow> RGBA list \<Rightarrow> bool" where
  "swizzled stride reverse T ps ps' \<longleftrightarrow>
     length ps' = length ps
     \<and> (\<forall>(j, i)\<in>T. map (nth ps') (tile_indices stride j i)
                      = swizzle_list reverse (map (nth ps) (tile_indices stride j i)))
     \<and> (\<forall>m. (\<forall>(j, i)\<in>T. m \<notin> set (tile_indices stride j i)) \<longrightarrow> ps' ! m = ps ! m)"

section \<open>Theorems\<close>

subsection \<open>Quantize and expand\<close>

text \<open>
  The arithmetic of \<open>quantize\<close> with \<open>B = 2 ^ bits\<close> and \<open>S = 256 / B\<close>: the value is cut
  to \<open>n div S\<close> and expanded to \<open>(n div S) * 255 div (B - 1)\<close>.
\<close>

lemma quant_aux:
  fixes n S B :: int
  assumes n: "0 \<le> n" "n < 256" and S: "0 < S" and B: "1 < B" and BS: "B * S = 256"
  shows "\<bar>(n div S) * 255 div (B - 1) - n\<bar> * (B - 1) \<le> 255"
    and "((n div S) * 255 div (B - 1)) div S = n div S"
    and "0 \<le> n div S" and "n div S < B"
    and "0 \<le> (n div S) * 255 div (B - 1)" and "(n div S) * 255 div (B - 1) < 256"
proof -
  define v where "v = n div S"
  define r where "r = n mod S"
  define out where "out = v * 255 div (B - 1)"
  define t where "t = v * 255 mod (B - 1)"
  have nv: "n = S * v + r" and r: "0 \<le> r" "r < S"
    using S by (simp_all add: v_def r_def)
  have v0: "0 \<le> v" using n S by (simp add: v_def pos_imp_zdiv_nonneg_iff)
  have "S * v \<le> n" using nv r by simp
  then have "S * v < S * B" using n BS by (simp add: mult.commute)
  then have vB: "v < B" using S by simp
  have ov: "v * 255 = (B - 1) * out + t" and t: "0 \<le> t" "t < B - 1"
    using B by (simp_all add: out_def t_def)
  have o0: "0 \<le> out" using v0 B by (simp add: out_def pos_imp_zdiv_nonneg_iff)
  have SB: "S * B = 256" using BS by (simp add: mult.commute)
  define a where "a = (B - 1) * out"
  define c where "c = (B - 1) * n"
  define d where "d = (B - 1) * r"
  define e where "e = S * v"
  have a: "a = 255 * v - t" using ov by (simp add: a_def)
  have "c = (B - 1) * (S * v) + (B - 1) * r" by (simp add: c_def nv algebra_simps)
  also have "(B - 1) * (S * v) = (S * B) * v - S * v" by (simp add: algebra_simps)
  finally have c: "c = 256 * v - e + d" by (simp add: SB d_def e_def)
  have d0: "0 \<le> d" using r B by (simp add: d_def)
  have "d \<le> (B - 1) * (S - 1)" unfolding d_def using r B by (intro mult_left_mono) auto
  also have "(B - 1) * (S - 1) = 257 - S - B" using SB by (simp add: algebra_simps)
  finally have d1: "d \<le> 257 - S - B" .
  have "(S - 1) * v \<le> (S - 1) * (B - 1)" using vB S by (intro mult_left_mono) auto
  also have "(S - 1) * (B - 1) = 257 - S - B" using SB by (simp add: algebra_simps)
  finally have "(S - 1) * v \<le> 257 - S - B" .
  then have e1: "e - v \<le> 257 - S - B" by (simp add: e_def algebra_simps)
  have "0 \<le> (S - 1) * v" using S v0 by simp
  then have e0: "v \<le> e" by (simp add: e_def algebra_simps)
  have up: "a - c \<le> 255" using a c d0 e1 t S B by linarith
  have lo: "c - a \<le> 255" using a c d1 e0 t S B by linarith
  have "\<bar>out - n\<bar> * (B - 1) = \<bar>(out - n) * (B - 1)\<bar>"
    using B by (simp add: abs_mult)
  also have "(out - n) * (B - 1) = a - c"
    by (simp add: a_def c_def algebra_simps)
  finally have "\<bar>out - n\<bar> * (B - 1) = \<bar>a - c\<bar>" .
  then have "\<bar>out - n\<bar> * (B - 1) \<le> 255" using up lo by linarith
  then show "\<bar>(n div S) * 255 div (B - 1) - n\<bar> * (B - 1) \<le> 255"
    by (simp add: v_def out_def)
  show "0 \<le> n div S" using v0 by (simp add: v_def)
  show "n div S < B" using vB by (simp add: v_def)
  show "0 \<le> (n div S) * 255 div (B - 1)" using o0 by (simp add: out_def v_def)
  have "v \<le> B - 1" using vB by simp
  then have "255 * v \<le> 255 * (B - 1)" by simp
  then have "a \<le> 255 * (B - 1)" using a t by simp
  then have "(B - 1) * out \<le> (B - 1) * 255" by (simp only: a_def mult.commute)
  then have o255: "out \<le> 255" using B mult_le_cancel_left_pos[of "B - 1" out 255] by simp
  then show "(n div S) * 255 div (B - 1) < 256" by (simp add: out_def v_def)
  have lo2: "S * v \<le> out"
  proof -
    have "(B - 1) * e = (S * B) * v - e" by (simp add: e_def algebra_simps)
    then have "(B - 1) * e \<le> 255 * v" using e0 SB by simp
    then have "(B - 1) * e < (B - 1) * out + (B - 1)" using a t by (simp add: a_def)
    then have "(B - 1) * e < (B - 1) * (out + 1)" by (simp add: algebra_simps)
    then have "e < out + 1" using B mult_less_cancel_left_pos[of "B - 1" e "out + 1"] by simp
    then show ?thesis by (simp add: e_def)
  qed
  have hi2: "out < S * (v + 1)"
  proof -
    have be: "(B - 1) * e = 256 * v - e" using SB by (simp add: e_def algebra_simps)
    have "(B - 1) * out \<le> 255 * v" using a t by (simp add: a_def)
    also have "\<dots> = (B - 1) * e + (e - v)" using be by simp
    also have "\<dots> \<le> (B - 1) * e + (257 - S - B)" using e1 by simp
    also have "\<dots> < (B - 1) * e + (B - 1) * S" using SB B S by (simp add: algebra_simps)
    also have "\<dots> = (B - 1) * (S * (v + 1))" by (simp add: e_def algebra_simps)
    finally show ?thesis using B mult_less_cancel_left_pos[of "B - 1" out "S * (v + 1)"] by simp
  qed
  have "out div S = v"
    using lo2 hi2 S by (intro int_div_pos_eq[of out S v "out - S * v"]) (auto simp: algebra_simps)
  then show "((n div S) * 255 div (B - 1)) div S = n div S"
    by (simp add: out_def v_def)
qed


lemma uint_u8_of_int: "0 \<le> x \<Longrightarrow> x < 256 \<Longrightarrow> uint (word_of_int x :: u8) = x"
  by (simp add: uint_word_of_int)

lemma quantize_unfold:
  assumes b: "1 \<le> b" "b \<le> 8"
  shows "quantize b q = Inr (word_of_int ((uint q div 2 ^ (8 - b)) * 255 div (2 ^ b - 1)))"
    and "uint (word_of_int ((uint q div 2 ^ (8 - b)) * 255 div (2 ^ b - 1)) :: u8)
           = (uint q div 2 ^ (8 - b)) * 255 div (2 ^ b - 1)"
proof -
  let ?S = "2 ^ (8 - b) :: int" and ?B = "2 ^ b :: int"
  have BS: "?B * ?S = 256"
    using b by (simp flip: power_add)
  have B1: "1 < ?B" using b by (simp add: one_less_power)
  have n: "0 \<le> uint q" "uint q < 256" using uint_bounded[of q] by simp_all
  note aux = quant_aux[OF n _ B1 BS]
  have "(?B * uint q) div 256 = uint q div ?S"
    using BS by (metis B1 div_mult_mult1 less_irrefl zero_less_one order_less_trans)
  moreover have "uint q div ?S < 256"
    using aux(4) b power_increasing[of b 8 "2::int"] by simp
  ultimately have v: "uint (quantum_to_bits b q) = uint q div ?S"
    using aux(3) by (simp add: quantum_to_bits_def QuantumRange_def uint_u8_of_int)
  have nz: "?B - 1 \<noteq> 0" using B1 by simp
  show "quantize b q = Inr (word_of_int ((uint q div ?S) * 255 div (?B - 1)))"
    using nz by (simp add: quantize_def bits_to_quantum_def v QuantumRange_def)
  show "uint (word_of_int ((uint q div ?S) * 255 div (?B - 1)) :: u8)
           = (uint q div ?S) * 255 div (?B - 1)"
    using aux(5,6) by (simp add: uint_u8_of_int)
qed

text \<open>
  Claim C7. For every bit depth \<open>b\<close> from 1 to 8 (the depths of the pixel formats) and every
  quantum \<open>q\<close>, \<open>quantize b q\<close> returns a value \<open>q'\<close> that differs from \<open>q\<close> by at most
  \<open>255 / (2 ^ b - 1)\<close>, and quantizing \<open>q'\<close> again returns \<open>q'\<close>.
\<close>

theorem quantize_bound_idempotent:
  assumes "1 \<le> b" "b \<le> 8"
  shows "\<exists>q'. quantize b q = Inr q'
            \<and> \<bar>real_of_int (uint q') - real_of_int (uint q)\<bar> \<le> 255 / (2 ^ b - 1)
            \<and> quantize b q' = Inr q'"
proof -
  let ?S = "2 ^ (8 - b) :: int" and ?B = "2 ^ b :: int"
  define q' :: u8 where "q' = word_of_int ((uint q div ?S) * 255 div (?B - 1))"
  have BS: "?B * ?S = 256"
    using assms by (simp flip: power_add)
  have B1: "1 < ?B" using assms by (simp add: one_less_power)
  have n: "0 \<le> uint q" "uint q < 256" using uint_bounded[of q] by simp_all
  note aux = quant_aux[OF n _ B1 BS]
  have q1: "quantize b q = Inr q'" and u: "uint q' = (uint q div ?S) * 255 div (?B - 1)"
    using quantize_unfold[OF assms, of q] by (simp_all add: q'_def)
  have "\<bar>uint q' - uint q\<bar> * (?B - 1) \<le> 255" using aux(1) by (simp add: u)
  then have "real_of_int (\<bar>uint q' - uint q\<bar> * (?B - 1)) \<le> 255" by linarith
  then have "\<bar>real_of_int (uint q') - real_of_int (uint q)\<bar> * (2 ^ b - 1) \<le> 255"
    by simp
  moreover have "(1::real) < 2 ^ b" using assms by (intro one_less_power) auto
  then have "(0::real) < 2 ^ b - 1" by simp
  ultimately have bound: "\<bar>real_of_int (uint q') - real_of_int (uint q)\<bar> \<le> 255 / (2 ^ b - 1)"
    by (simp only: pos_le_divide_eq)
  have "quantize b q' = Inr (word_of_int ((uint q' div ?S) * 255 div (?B - 1)))"
    using quantize_unfold(1)[OF assms, of q'] .
  also have "uint q' div ?S = uint q div ?S" using aux(2) by (simp add: u)
  finally have "quantize b q' = Inr q'" by (simp add: q'_def)
  with q1 bound show ?thesis by blast
qed

theorem quantize_bound_idempotent_witness:
  "quantize 5 200 = Inr 205 \<and> \<bar>real_of_int (uint (205 :: u8)) - real_of_int (uint (200 :: u8))\<bar> \<le> 255 / (2 ^ 5 - 1)
     \<and> quantize 5 205 = Inr 205"
  using quantize_bound_idempotent[of 5 200]
  by (simp add: quantize_def bits_to_quantum_def quantum_to_bits_def QuantumRange_def)


subsection \<open>Power-of-two ceiling\<close>

text \<open>The real-number expression of \<open>potCeil\<close> computes an integer power of two.\<close>

lemma potCeil_eq: "potCeil x = (if x < 8 then 8 else 2 ^ ceillog2 x)"
proof (cases "x < 8")
  case True
  then show ?thesis by (simp add: potCeil_def)
next
  case False
  then have x: "0 < x" by simp
  have "0 \<le> log 2 (real x)" using False by simp
  then have c0: "0 \<le> \<lceil>log 2 (real x)\<rceil>" by linarith
  then have "real_of_int \<lceil>log 2 (real x)\<rceil> = real (nat \<lceil>log 2 (real x)\<rceil>)" by simp
  then have "2 powr real_of_int \<lceil>log 2 (real x)\<rceil> = 2 ^ nat \<lceil>log 2 (real x)\<rceil>"
    by (simp add: powr_realpow)
  also have "\<dots> = real (2 ^ ceillog2 x)" using x by (simp add: ceillog2_def)
  finally have "nat \<lfloor>2 powr real_of_int \<lceil>log 2 (real x)\<rceil>\<rfloor> = 2 ^ ceillog2 x"
    by (metis floor_of_nat nat_int)
  then show ?thesis using False by (simp add: potCeil_def)
qed

lemma ceillog2_least: "x \<le> 2 ^ j \<Longrightarrow> ceillog2 x \<le> j"
  by (metis ceillog2_2_power ceillog2_mono)

text \<open>
  Claim C3. For every \<open>x \<le> 8\<close>, \<open>potCeil x = 8\<close>; for every \<open>x\<close> above 8 and up to the
  maximum 1024, \<open>potCeil x\<close> is the smallest power of two that is at least \<open>x\<close>; and
  \<open>potCeil 9 = 16\<close>, \<open>potCeil 256 = 256\<close>, \<open>potCeil 257 = 512\<close>. (\<open>potCeil\<close> is the
  source's expression over the reals.)
\<close>

theorem potCeil_power_of_two:
  "(x \<le> 8 \<longrightarrow> potCeil x = 8)
   \<and> (8 < x \<and> x \<le> 1024 \<longrightarrow>
        (\<exists>k. potCeil x = 2 ^ k \<and> x \<le> 2 ^ k \<and> (\<forall>j. x \<le> 2 ^ j \<longrightarrow> (2::nat) ^ k \<le> 2 ^ j)))
   \<and> potCeil 9 = 16 \<and> potCeil 256 = 256 \<and> potCeil 257 = 512"
proof (intro conjI impI)
  assume "x \<le> 8"
  then show "potCeil x = 8"
    using ceillog2_2_power[of 3] by (cases "x = 8") (auto simp: potCeil_eq)
next
  assume "8 < x \<and> x \<le> 1024"
  then have "potCeil x = 2 ^ ceillog2 x" by (simp add: potCeil_eq)
  moreover have "x \<le> 2 ^ ceillog2 x" by (rule le_two_power_ceillog2)
  moreover have "\<forall>j. x \<le> 2 ^ j \<longrightarrow> (2::nat) ^ ceillog2 x \<le> 2 ^ j"
    using ceillog2_least by (simp add: power_increasing)
  ultimately show "\<exists>k. potCeil x = 2 ^ k \<and> x \<le> 2 ^ k \<and> (\<forall>j. x \<le> 2 ^ j \<longrightarrow> (2::nat) ^ k \<le> 2 ^ j)"
    by blast
next
  show "potCeil 9 = 16" by (simp add: potCeil_eq) code_simp
  show "potCeil 256 = 256" using ceillog2_2_power[of 8] by (simp add: potCeil_eq)
  show "potCeil 257 = 512" by (simp add: potCeil_eq) code_simp
qed

theorem potCeil_power_of_two_witness:
  "potCeil 3 = 8 \<and> potCeil 8 = 8 \<and> potCeil 1000 = 1024
    \<and> (\<exists>k. potCeil 1000 = 2 ^ k \<and> 1000 \<le> (2::nat) ^ k \<and> (\<forall>j. (1000::nat) \<le> 2 ^ j \<longrightarrow> (2::nat) ^ k \<le> 2 ^ j))"
proof -
  have e: "potCeil 1000 = 1024" by (simp add: potCeil_eq) code_simp
  show ?thesis
    using potCeil_power_of_two[of 3] potCeil_power_of_two[of 8] potCeil_power_of_two[of 1000] e
    by simp
qed


subsection \<open>Compression selection\<close>

lemma compressNone_layout:
  "\<exists>pad < 4. compressNone src = compressionHeader [] 0 (length src) @ src @ replicate pad 0"
proof -
  let ?r = "compressionHeader [] 0 (length src) @ src"
  let ?n = "length ?r"
  show ?thesis
  proof (cases "?n mod 4 = 0")
    case True
    then have "compressNone src = ?r @ replicate 0 0"
      by (simp add: compressNone_def Let_def)
    then show ?thesis by (metis append_assoc zero_less_numeral)
  next
    case False
    let ?pad = "(?n + 3) - (?n + 3) mod 4 - ?n"
    have "?pad < 4" by arith
    moreover have "compressNone src = ?r @ replicate ?pad 0"
      using False by (simp add: compressNone_def Let_def)
    ultimately show ?thesis by (metis append_assoc)
  qed
qed

lemma compressNone_aligned: "length (compressNone src) mod 4 = 0"
proof -
  let ?r = "compressionHeader [] 0 (length src) @ src"
  let ?n = "length ?r"
  show ?thesis
  proof (cases "?n mod 4 = 0")
    case True
    then have "compressNone src = ?r"
      by (simp add: compressNone_def Let_def)
    with True show ?thesis by (simp only:)
  next
    case False
    let ?pad = "(?n + 3) - (?n + 3) mod 4 - ?n"
    have "compressNone src = ?r @ replicate ?pad 0"
      using False by (simp add: compressNone_def Let_def)
    then have "length (compressNone src) = ?n + ?pad"
      by (simp only: length_append length_replicate)
    moreover have "(?n + ?pad) mod 4 = 0" by arith
    ultimately show ?thesis by (simp only:)
  qed
qed

lemma compressNone_nonempty: "compressNone src \<noteq> []"
  by (simp add: compressNone_def compressionHeader_def Let_def)

text \<open>
  The loop of \<open>compressAuto\<close> over any list of codecs: what the state holds after the
  codecs \<open>cs\<close> have been tried, from the initial empty state.
\<close>

lemma compressAuto_fold_choice:
  fixes src :: "u8 list" and cs :: "((u8 list \<Rightarrow> u8 list) \<times> string) list"
  defines "st \<equiv> foldl (compressAuto_step src) ([], None) cs"
  shows "(fst st = [] \<and> (\<forall>i<length cs. fst (cs ! i) src = []))
      \<or> (\<exists>k<length cs. fst st = fst (cs ! k) src \<and> snd st = Some (snd (cs ! k))
            \<and> fst (cs ! k) src \<noteq> []
            \<and> (\<forall>i<length cs. fst (cs ! i) src \<noteq> [] \<longrightarrow>
                   length (fst (cs ! k) src) \<le> length (fst (cs ! i) src))
            \<and> (\<forall>i<k. fst (cs ! i) src \<noteq> [] \<longrightarrow>
                   length (fst (cs ! k) src) < length (fst (cs ! i) src)))"
  unfolding st_def
proof (induction cs rule: rev_induct)
  case Nil
  then show ?case by simp
next
  case (snoc c cs)
  let ?st = "foldl (compressAuto_step src) ([], None) cs"
  let ?n = "length cs"
  from snoc consider
      (empty) "fst ?st = []" "\<forall>i<?n. fst (cs ! i) src = []"
    | (kept) k where "k < ?n" "fst ?st = fst (cs ! k) src" "snd ?st = Some (snd (cs ! k))"
        "fst (cs ! k) src \<noteq> []"
        "\<forall>i<?n. fst (cs ! i) src \<noteq> [] \<longrightarrow> length (fst (cs ! k) src) \<le> length (fst (cs ! i) src)"
        "\<forall>i<k. fst (cs ! i) src \<noteq> [] \<longrightarrow> length (fst (cs ! k) src) < length (fst (cs ! i) src)"
    by blast
  then show ?case
  proof cases
    case empty
    have st': "foldl (compressAuto_step src) ([], None) (cs @ [c]) = (fst c src, Some (snd c))"
      using empty(1) by (simp add: compressAuto_step_def Let_def)
    show ?thesis
    proof (cases "fst c src = []")
      case True
      with empty st' show ?thesis
        by (auto simp: nth_append less_Suc_eq)
    next
      case False
      have "\<exists>k<length (cs @ [c]). fst (fst c src, Some (snd c)) = fst ((cs @ [c]) ! k) src
              \<and> snd (fst c src, Some (snd c)) = Some (snd ((cs @ [c]) ! k))
              \<and> fst ((cs @ [c]) ! k) src \<noteq> []
              \<and> (\<forall>i<length (cs @ [c]). fst ((cs @ [c]) ! i) src \<noteq> [] \<longrightarrow>
                     length (fst ((cs @ [c]) ! k) src) \<le> length (fst ((cs @ [c]) ! i) src))
              \<and> (\<forall>i<k. fst ((cs @ [c]) ! i) src \<noteq> [] \<longrightarrow>
                     length (fst ((cs @ [c]) ! k) src) < length (fst ((cs @ [c]) ! i) src))"
        using empty(2) False
        by (intro exI[of _ ?n]) (auto simp: nth_append less_Suc_eq)
      then show ?thesis unfolding st' by blast
    qed
  next
    case kept
    show ?thesis
    proof (cases "fst c src \<noteq> [] \<and> length (fst c src) < length (fst ?st)")
      case True
      then have st': "foldl (compressAuto_step src) ([], None) (cs @ [c]) = (fst c src, Some (snd c))"
        by (simp add: compressAuto_step_def Let_def)
      have "\<exists>k<length (cs @ [c]). fst (fst c src, Some (snd c)) = fst ((cs @ [c]) ! k) src
              \<and> snd (fst c src, Some (snd c)) = Some (snd ((cs @ [c]) ! k))
              \<and> fst ((cs @ [c]) ! k) src \<noteq> []
              \<and> (\<forall>i<length (cs @ [c]). fst ((cs @ [c]) ! i) src \<noteq> [] \<longrightarrow>
                     length (fst ((cs @ [c]) ! k) src) \<le> length (fst ((cs @ [c]) ! i) src))
              \<and> (\<forall>i<k. fst ((cs @ [c]) ! i) src \<noteq> [] \<longrightarrow>
                     length (fst ((cs @ [c]) ! k) src) < length (fst ((cs @ [c]) ! i) src))"
        using True kept(2,5)
        by (intro exI[of _ ?n]) (fastforce simp: nth_append less_Suc_eq)
      then show ?thesis unfolding st' by blast
    next
      case False
      then have st': "foldl (compressAuto_step src) ([], None) (cs @ [c]) = ?st"
        using kept(2,4) by (auto simp: compressAuto_step_def Let_def)
      have "\<exists>k<length (cs @ [c]). fst ?st = fst ((cs @ [c]) ! k) src
              \<and> snd ?st = Some (snd ((cs @ [c]) ! k))
              \<and> fst ((cs @ [c]) ! k) src \<noteq> []
              \<and> (\<forall>i<length (cs @ [c]). fst ((cs @ [c]) ! i) src \<noteq> [] \<longrightarrow>
                     length (fst ((cs @ [c]) ! k) src) \<le> length (fst ((cs @ [c]) ! i) src))
              \<and> (\<forall>i<k. fst ((cs @ [c]) ! i) src \<noteq> [] \<longrightarrow>
                     length (fst ((cs @ [c]) ! k) src) < length (fst ((cs @ [c]) ! i) src))"
        using False kept
        by (intro exI[of _ k]) (auto simp: nth_append less_Suc_eq)
      then show ?thesis unfolding st' by blast
    qed
  qed
qed


lemma compressAuto_loop_nonempty: "fst (compressAuto_loop E src) \<noteq> []"
proof -
  have len: "length (compress_funcs E) = 5" by (simp add: compress_funcs_def)
  have first: "fst (compress_funcs E ! 0) src \<noteq> []"
    by (simp add: compress_funcs_def compressNone_nonempty)
  have "\<not> (\<forall>i<length (compress_funcs E). fst (compress_funcs E ! i) src = [])"
    using first len by (metis zero_less_numeral)
  with compressAuto_fold_choice[of src "compress_funcs E"] show ?thesis
    unfolding compressAuto_loop_def by auto
qed

text \<open>
  Claim C6. The automatic selector tries the codecs in the fixed order none, lzss, lz11,
  huff, rle, and returns the output with index \<open>k\<close> in that order where: the output is not
  empty, no non-empty output is smaller, and every non-empty output tried before it is
  strictly larger. So the first non-empty result is kept, only a strictly smaller non-empty
  result replaces it, and a tie keeps the earlier codec. The name printed is that codec's.
\<close>

theorem compressAuto_selection:
  "map snd (compress_funcs E) = [''none'', ''lzss'', ''lz11'', ''huff'', ''rle'']
   \<and> map (\<lambda>c. fst c src) (compress_funcs E) =
       [compressNone src, lzssEncode E src, lz11Encode E src, huffEncode E src, rleEncode E src]
   \<and> (\<exists>k<5.
         fst (compressAuto_loop E src) = fst (compress_funcs E ! k) src
       \<and> snd (compressAuto_loop E src) = Some (snd (compress_funcs E ! k))
       \<and> fst (compress_funcs E ! k) src \<noteq> []
       \<and> (\<forall>i<5. fst (compress_funcs E ! i) src \<noteq> [] \<longrightarrow>
              length (fst (compress_funcs E ! k) src) \<le> length (fst (compress_funcs E ! i) src))
       \<and> (\<forall>i<k. fst (compress_funcs E ! i) src \<noteq> [] \<longrightarrow>
              length (fst (compress_funcs E ! k) src) < length (fst (compress_funcs E ! i) src)))
   \<and> fst (compressAuto E src W) = fst (compressAuto_loop E src)"
proof -
  have len: "length (compress_funcs E) = 5" by (simp add: compress_funcs_def)
  have first: "fst (compress_funcs E ! 0) src \<noteq> []"
    by (simp add: compress_funcs_def compressNone_nonempty)
  have "\<not> (\<forall>i<length (compress_funcs E). fst (compress_funcs E ! i) src = [])"
    using first len by (metis zero_less_numeral)
  with compressAuto_fold_choice[of src "compress_funcs E"] len
  have "\<exists>k<5.
         fst (compressAuto_loop E src) = fst (compress_funcs E ! k) src
       \<and> snd (compressAuto_loop E src) = Some (snd (compress_funcs E ! k))
       \<and> fst (compress_funcs E ! k) src \<noteq> []
       \<and> (\<forall>i<5. fst (compress_funcs E ! i) src \<noteq> [] \<longrightarrow>
              length (fst (compress_funcs E ! k) src) \<le> length (fst (compress_funcs E ! i) src))
       \<and> (\<forall>i<k. fst (compress_funcs E ! i) src \<noteq> [] \<longrightarrow>
              length (fst (compress_funcs E ! k) src) < length (fst (compress_funcs E ! i) src))"
    unfolding compressAuto_loop_def by auto
  moreover have "map snd (compress_funcs E) = [''none'', ''lzss'', ''lz11'', ''huff'', ''rle'']"
    by (simp add: compress_funcs_def)
  moreover have "map (\<lambda>c. fst c src) (compress_funcs E) =
       [compressNone src, lzssEncode E src, lz11Encode E src, huffEncode E src, rleEncode E src]"
    by (simp add: compress_funcs_def)
  moreover have "fst (compressAuto E src W) = fst (compressAuto_loop E src)"
    by (simp add: compressAuto_def Let_def)
  ultimately show ?thesis by blast
qed

text \<open>
  An instance: for an 8-byte payload the identity envelope has 12 bytes, lzss fails, lz11 and
  huff both give 8 bytes and rle gives 12. The tie goes to lz11, tried first.
\<close>

theorem compressAuto_selection_witness:
  "compressAuto_loop
     \<lparr>encode_tile = (\<lambda>f u px. []), lzssEncode = (\<lambda>src. []), lz11Encode = (\<lambda>src. replicate 8 1),
      huffEncode = (\<lambda>src. replicate 8 2), rleEncode = (\<lambda>src. replicate 12 3),
      encode_subimage = (\<lambda>sub x y. []), undef_pixel = (\<lambda>j i. RGBA_zero),
      fopen_ok = (\<lambda>path. True), fwrite_rc = (\<lambda>len n. n)\<rparr>
     (replicate 8 7)
   = (replicate 8 1, Some ''lz11'')"
  using compressAuto_selection[of
     "\<lparr>encode_tile = (\<lambda>f u px. []), lzssEncode = (\<lambda>src. []), lz11Encode = (\<lambda>src. replicate 8 1),
      huffEncode = (\<lambda>src. replicate 8 2), rleEncode = (\<lambda>src. replicate 12 3),
      encode_subimage = (\<lambda>sub x y. []), undef_pixel = (\<lambda>j i. RGBA_zero),
      fopen_ok = (\<lambda>path. True), fwrite_rc = (\<lambda>len n. n)\<rparr>" "replicate 8 7"]
  by (simp add: compressAuto_loop_def compress_funcs_def compressAuto_step_def compressNone_def
        compressionHeader_def Let_def)

lemma write_buffer_result:
  "fst (write_buffer E fp buf pos W) = Inr ()
   \<or> fst (write_buffer E fp buf pos W) = Inl (RuntimeError ''Failed to output data'')"
proof (induction E fp buf pos W rule: write_buffer.induct)
  case (1 E fp buf pos W)
  then show ?case
    by (subst (1 2) write_buffer.simps) (auto simp: Let_def)
qed

text \<open>
  Claim C8. For every payload, \<open>compressNone\<close> returns a non-empty buffer: the envelope
  header (tag 0 and the payload's length), the payload, and fewer than four zero bytes of
  padding, with a length that is a multiple of 4. So the automatic selector never returns an
  empty buffer, and \<open>write_image_data\<close> under \<open>COMPRESSION_AUTO\<close> never fails with
  ``Failed to compress data''.
\<close>

theorem compressNone_never_empty:
  "compressNone src \<noteq> []
   \<and> length (compressNone src) mod 4 = 0
   \<and> (\<exists>pad. pad < 4 \<and>
        compressNone src = compressionHeader [] 0 (length src) @ src @ replicate pad 0)
   \<and> compressionHeader [] 0 (length src) =
        [0, of_nat (length src), of_nat (length src div 256), of_nat (length src div 65536)]
   \<and> fst (compressAuto_loop E src) \<noteq> []
   \<and> fst (compressAuto E src W) \<noteq> []
   \<and> fst (write_image_data E (params\<lparr>compression_format := COMPRESSION_AUTO\<rparr>) self fp W)
        \<noteq> Inl (RuntimeError ''Failed to compress data'')"
proof -
  have loop: "fst (compressAuto_loop E src) \<noteq> []" for src
    by (rule compressAuto_loop_nonempty)
  have auto: "fst (compressAuto E src W) \<noteq> []" for src
    using loop by (simp add: compressAuto_def Let_def)
  have "fst (write_image_data E (params\<lparr>compression_format := COMPRESSION_AUTO\<rparr>) self fp W)
          = fst (write_buffer E fp (fst (compressAuto E (image_data self) W)) 0
                   (snd (compressAuto E (image_data self) W)))"
    using auto[of "image_data self"] by (simp add: write_image_data_def Let_def)
  then have "fst (write_image_data E (params\<lparr>compression_format := COMPRESSION_AUTO\<rparr>) self fp W)
        \<noteq> Inl (RuntimeError ''Failed to compress data'')"
    using write_buffer_result[of E fp "fst (compressAuto E (image_data self) W)" 0
            "snd (compressAuto E (image_data self) W)"]
    by auto
  moreover have "compressionHeader [] 0 (length src) =
        [0, of_nat (length src), of_nat (length src div 256), of_nat (length src div 65536)]"
    by (simp add: compressionHeader_def)
  moreover obtain pad where "pad < 4"
      "compressNone src = compressionHeader [] 0 (length src) @ src @ replicate pad 0"
    using compressNone_layout by blast
  ultimately show ?thesis
    using compressNone_nonempty compressNone_aligned loop auto by blast
qed


subsection \<open>Oversized input\<close>

text \<open>
  Claim C5. For every input image wider or higher than 1024, \<open>load_image\<close> throws
  ``Invalid width'' or ``Invalid height'', and \<open>go\<close> returns \<open>EXIT_FAILURE\<close> in a world
  that differs from the initial one only by the message on the standard error (and the ETC1
  initialisation, which \<open>go\<close> runs first for the ETC1 formats): no file is created or written
  and nothing is printed to the standard output. The result does not depend on the encoders,
  the codecs or the file system of the environment \<open>E\<close>: none of them is reached.
\<close>

theorem go_rejects_oversized:
  assumes "1024 < img_w (input_img params) \<or> 1024 < img_h (input_img params)"
  shows "\<exists>msg. (msg = ''Invalid width'' \<or> msg = ''Invalid height'')
           \<and> load_image self (input_img params) = Inl (RuntimeError msg)
           \<and> go E params self W =
               Inr (EXIT_FAILURE,
                    W\<lparr>etc1_initialized :=
                         (process_format params = ETC1 \<or> process_format params = ETC1A4
                            \<or> process_format params = AUTO_ETC1 \<or> etc1_initialized W),
                       err_lines := err_lines W @ [msg]\<rparr>)
           \<and> (\<forall>W'. go E params self W = Inr (EXIT_FAILURE, W') \<longrightarrow>
                  files W' = files W \<and> out_lines W' = out_lines W)"
proof -
  obtain msg where m: "msg = ''Invalid width'' \<or> msg = ''Invalid height''"
    and l: "load_image self (input_img params) = Inl (RuntimeError msg)"
  proof (cases "1024 < img_w (input_img params)")
    case True
    then have "load_image self (input_img params) = Inl (RuntimeError ''Invalid width'')"
      by (simp add: load_image_def max_image_width_def)
    then show ?thesis using that by blast
  next
    case False
    then have "1024 < img_h (input_img params)" using assms by simp
    then have "load_image self (input_img params) = Inl (RuntimeError ''Invalid height'')"
      using False by (simp add: load_image_def max_image_width_def max_image_height_def)
    then show ?thesis using that by blast
  qed
  have g: "go E params self W =
               Inr (EXIT_FAILURE,
                    W\<lparr>etc1_initialized :=
                         (process_format params = ETC1 \<or> process_format params = ETC1A4
                            \<or> process_format params = AUTO_ETC1 \<or> etc1_initialized W),
                       err_lines := err_lines W @ [msg]\<rparr>)"
    by (simp add: go_def l Let_def)
  show ?thesis using m l g by (intro exI[of _ msg]) simp
qed

theorem go_rejects_oversized_witness:
  "go \<lparr>encode_tile = (\<lambda>f u px. []), lzssEncode = (\<lambda>src. []), lz11Encode = (\<lambda>src. []),
      huffEncode = (\<lambda>src. []), rleEncode = (\<lambda>src. []),
      encode_subimage = (\<lambda>sub x y. []), undef_pixel = (\<lambda>j i. RGBA_zero),
      fopen_ok = (\<lambda>path. True), fwrite_rc = (\<lambda>len n. n)\<rparr>
     \<lparr>output_path = ''out.t3x'', process_format = RGBA8888, etc1_quality = cMediumQuality,
      compression_format = COMPRESSION_AUTO,
      input_img = \<lparr>img_stride = 1025, img_w = 1025, img_h = 1,
                    img_pixels = replicate 1025 RGBA_zero\<rparr>\<rparr>
     Invocation_init
     \<lparr>files = Map.empty, out_lines = [], err_lines = [], etc1_initialized = False\<rparr>
   = Inr (EXIT_FAILURE,
          \<lparr>files = Map.empty, out_lines = [], err_lines = [''Invalid width''],
           etc1_initialized = False\<rparr>)"
  using go_rejects_oversized[of
     "\<lparr>output_path = ''out.t3x'', process_format = RGBA8888, etc1_quality = cMediumQuality,
      compression_format = COMPRESSION_AUTO,
      input_img = \<lparr>img_stride = 1025, img_w = 1025, img_h = 1,
                    img_pixels = replicate 1025 RGBA_zero\<rparr>\<rparr>"
     Invocation_init
     "\<lparr>encode_tile = (\<lambda>f u px. []), lzssEncode = (\<lambda>src. []), lz11Encode = (\<lambda>src. []),
      huffEncode = (\<lambda>src. []), rleEncode = (\<lambda>src. []),
      encode_subimage = (\<lambda>sub x y. []), undef_pixel = (\<lambda>j i. RGBA_zero),
      fopen_ok = (\<lambda>path. True), fwrite_rc = (\<lambda>len n. n)\<rparr>"
     "\<lparr>files = Map.empty, out_lines = [], err_lines = [], etc1_initialized = False\<rparr>"]
  by (simp add: go_def load_image_def max_image_width_def Let_def)

subsection \<open>Canvas expansion\<close>

lemma memcpy_px_error: "memcpy_px dst d src s n = Inl e \<Longrightarrow> e = OutOfBounds"
  by (auto simp: memcpy_px_def vec_at_def split: if_splits)

lemma memcpy_px_bounds:
  "memcpy_px dst d src s n = Inr px \<Longrightarrow>
     d < length dst \<and> s < length src \<and> s + n \<le> length src \<and> d + n \<le> length dst"
  by (auto simp: memcpy_px_def vec_at_def split: if_splits)

lemma memcpy_px_eq:
  "memcpy_px dst d src s n = Inr px \<Longrightarrow>
     px = take d dst @ take n (drop s src) @ drop (d + n) dst"
  by (auto simp: memcpy_px_def vec_at_def split: if_splits)

lemma memcpy_px_length: "memcpy_px dst d src s n = Inr px \<Longrightarrow> length px = length dst"
  by (auto simp: memcpy_px_def vec_at_def split: if_splits)

lemma memcpy_px_take:
  assumes "memcpy_px dst d src s n = Inr px" "k \<le> d \<or> n = 0"
  shows "take k px = take k dst"
proof -
  have d: "d < length dst" using memcpy_px_bounds[OF assms(1)] by simp
  show ?thesis
  proof (cases "n = 0")
    case True
    then show ?thesis using memcpy_px_eq[OF assms(1)] by simp
  next
    case False
    then have "k \<le> d" using assms(2) by simp
    then show ?thesis using d memcpy_px_eq[OF assms(1)] by (simp add: min_def)
  qed
qed

text \<open>
  A row \<open>r'\<close> still to be copied whose copy would read past the source makes the loop fail:
  the copy of row \<open>r'\<close> reads the pixels from \<open>stride * r'\<close> up to \<open>2 * stride * r'\<close>.
\<close>

lemma copy_rows_out_of_bounds:
  assumes "r \<le> r'" "r' < image_height"
    and "length (img_pixels img) < img_stride img * r' + img_stride img * r'"
  shows "copy_rows new_img img image_height r = Inl OutOfBounds"
  using assms
proof (induction new_img img image_height r rule: copy_rows.induct)
  case (1 new_img img image_height r)
  have rlt: "r < image_height" using "1.prems" by simp
  show ?case
  proof (cases "memcpy_px (img_pixels new_img) (img_stride new_img * r)
                   (img_pixels img) (img_stride img * r) (img_stride img * r)")
    case (Inl e)
    then show ?thesis
      using rlt memcpy_px_error[OF Inl] by (subst copy_rows.simps) simp
  next
    case (Inr px)
    then have "img_stride img * r + img_stride img * r \<le> length (img_pixels img)"
      using memcpy_px_bounds by blast
    then have "r \<noteq> r'" using "1.prems"(3) by auto
    then have "r + 1 \<le> r'" using "1.prems"(1) by simp
    then have "copy_rows (new_img\<lparr>img_pixels := px\<rparr>) img image_height (r + 1) = Inl OutOfBounds"
      using "1.IH"[OF rlt Inr] "1.prems"(2,3) by simp
    then show ?thesis using rlt Inr by (subst copy_rows.simps) simp
  qed
qed

text \<open>Row 0 of the new canvas is never written: the copy of row 0 has length 0, and every
  later copy starts at or after the second row of the canvas.\<close>

lemma copy_rows_first_row:
  assumes "copy_rows new_img img image_height r = Inr res"
  shows "take (img_stride new_img) (img_pixels res) = take (img_stride new_img) (img_pixels new_img)
         \<and> img_stride res = img_stride new_img \<and> img_w res = img_w new_img
         \<and> img_h res = img_h new_img \<and> length (img_pixels res) = length (img_pixels new_img)"
  using assms
proof (induction new_img img image_height r arbitrary: res rule: copy_rows.induct)
  case (1 new_img img image_height r)
  show ?case
  proof (cases "r < image_height")
    case False
    then show ?thesis using "1.prems" by (subst (asm) copy_rows.simps) simp
  next
    case True
    then obtain px where px: "memcpy_px (img_pixels new_img) (img_stride new_img * r)
                   (img_pixels img) (img_stride img * r) (img_stride img * r) = Inr px"
      and rec: "copy_rows (new_img\<lparr>img_pixels := px\<rparr>) img image_height (r + 1) = Inr res"
      using "1.prems" by (subst (asm) copy_rows.simps) (auto split: sum.splits)
    have "img_stride new_img \<le> img_stride new_img * r \<or> img_stride img * r = 0"
      by (cases r) simp_all
    then have "take (img_stride new_img) px = take (img_stride new_img) (img_pixels new_img)"
      using memcpy_px_take[OF px] by blast
    then show ?thesis using "1.IH"[OF True px rec] memcpy_px_length[OF px] by simp
  qed
qed

lemma potCeil_ge_8: "8 \<le> potCeil x"
proof (cases "x < 8")
  case True
  then show ?thesis by (simp add: potCeil_def)
next
  case False
  then have "8 \<le> x" by simp
  also have "x \<le> 2 ^ ceillog2 x" by (rule le_two_power_ceillog2)
  finally show ?thesis using False by (simp add: potCeil_eq)
qed

lemma load_image_expand:
  assumes "img_w img \<le> 1024" "img_h img \<le> 1024" "subimage_data self = []"
    and "img_w img \<noteq> potCeil (img_w img) \<or> img_h img \<noteq> potCeil (img_h img)"
  shows "load_image self img =
     (case copy_rows (Image_new (potCeil (img_w img)) (potCeil (img_h img))) img (img_h img) 0 of
        Inl e \<Rightarrow> Inl e
      | Inr new_img \<Rightarrow>
          Inr (self\<lparr>output_width := potCeil (img_w img), output_height := potCeil (img_h img),
                   subimage_data :=
                     [\<lparr>sub_index = 0, sub_name = [], sub_left = 0, sub_top = 1,
                       sub_right = real (img_w img) / real (potCeil (img_w img)),
                       sub_bottom = 1 - real (img_h img) / real (potCeil (img_h img)),
                       sub_rotated = False\<rparr>]\<rparr>, new_img))"
  using assms
  by (simp add: load_image_def max_image_width_def max_image_height_def Let_def)

text \<open>
  Claim C9 (the code breaks it). The copy of row \<open>r\<close> reads \<open>img.stride * r\<close> pixels
  starting at pixel \<open>img.stride * r\<close>, so the last row reads up to twice the size of a dense
  source buffer. For every image of at least three rows with a dense buffer
  (\<open>stride * h\<close> pixels, \<open>stride > 0\<close>) that needs the expansion, the copy leaves the bounds
  of the source: \<open>load_image\<close> takes the out-of-bounds branch.
\<close>

theorem load_image_copy_out_of_bounds:
  assumes "img_w img \<le> 1024" "img_h img \<le> 1024" "subimage_data self = []"
    and "img_w img \<noteq> potCeil (img_w img) \<or> img_h img \<noteq> potCeil (img_h img)"
    and "3 \<le> img_h img" "0 < img_stride img"
    and "length (img_pixels img) = img_stride img * img_h img"
  shows "load_image self img = Inl OutOfBounds"
proof -
  let ?r = "img_h img - 1"
  have "img_h img < ?r + ?r" using assms(5) by simp
  then have "img_stride img * img_h img < img_stride img * (?r + ?r)"
    using assms(6) by simp
  then have "length (img_pixels img) < img_stride img * ?r + img_stride img * ?r"
    using assms(7) by (simp add: distrib_left)
  moreover have "0 \<le> ?r" "?r < img_h img" using assms(5) by simp_all
  ultimately have "copy_rows (Image_new (potCeil (img_w img)) (potCeil (img_h img))) img
                     (img_h img) 0 = Inl OutOfBounds"
    by (intro copy_rows_out_of_bounds[where r' = ?r]) simp_all
  then show ?thesis using load_image_expand[OF assms(1-4)] by simp
qed

theorem load_image_copy_out_of_bounds_witness:
  "load_image Invocation_init
     \<lparr>img_stride = 1, img_w = 1, img_h = 3,
      img_pixels = [RGBA_zero, RGBA_zero, RGBA_zero]\<rparr> = Inl OutOfBounds"
  using load_image_copy_out_of_bounds[of
     "\<lparr>img_stride = 1, img_w = 1, img_h = 3,
      img_pixels = [RGBA_zero, RGBA_zero, RGBA_zero]\<rparr>" Invocation_init]
  by (simp add: Invocation_init_def potCeil_def)






section \<open>The swizzle\<close>

subsection \<open>The tile permutation on a list\<close>

lemma table_entries:
  "\<forall>e\<in>set table. e ! 0 < 64 \<and> e ! 1 < 64 \<and> e ! 2 < 64 \<and> e ! 3 < 64"
  by (simp add: table_def)

lemma length_swizzle_entry_list [simp]: "length (swizzle_entry_list e t) = length t"
  by (simp add: swizzle_entry_list_def Let_def)

lemma length_unswizzle_entry_list [simp]: "length (unswizzle_entry_list e t) = length t"
  by (simp add: unswizzle_entry_list_def Let_def)

lemma length_swap_list [simp]: "length (swap_list x y t) = length t"
  by (simp add: swap_list_def Let_def)

lemma length_fold_entries:
  "(\<And>e t. length (f e t) = length t) \<Longrightarrow> length (fold f es t) = length t"
  by (induction es arbitrary: t) simp_all

lemma length_swizzle_list [simp]: "length (swizzle_list reverse t) = length t"
  by (simp add: swizzle_list_def Let_def length_fold_entries)

text \<open>The list version only moves elements: it commutes with \<open>map\<close>.\<close>

lemma swizzle_entry_list_map:
  assumes "e ! 0 < length t" "e ! 1 < length t" "e ! 2 < length t" "e ! 3 < length t"
  shows "swizzle_entry_list e (map f t) = map f (swizzle_entry_list e t)"
  using assms by (simp add: swizzle_entry_list_def Let_def map_update[symmetric])

lemma unswizzle_entry_list_map:
  assumes "e ! 0 < length t" "e ! 1 < length t" "e ! 2 < length t" "e ! 3 < length t"
  shows "unswizzle_entry_list e (map f t) = map f (unswizzle_entry_list e t)"
  using assms by (simp add: unswizzle_entry_list_def Let_def map_update[symmetric])

lemma swap_list_map:
  assumes "x < length t" "y < length t"
  shows "swap_list x y (map f t) = map f (swap_list x y t)"
  using assms by (simp add: swap_list_def Let_def map_update[symmetric])

lemma fold_swizzle_entry_list_map:
  assumes "\<forall>e\<in>set es. e ! 0 < length t \<and> e ! 1 < length t \<and> e ! 2 < length t \<and> e ! 3 < length t"
  shows "fold swizzle_entry_list es (map f t) = map f (fold swizzle_entry_list es t)"
  using assms
  by (induction es arbitrary: t) (simp_all add: swizzle_entry_list_map)

lemma fold_unswizzle_entry_list_map:
  assumes "\<forall>e\<in>set es. e ! 0 < length t \<and> e ! 1 < length t \<and> e ! 2 < length t \<and> e ! 3 < length t"
  shows "fold unswizzle_entry_list es (map f t) = map f (fold unswizzle_entry_list es t)"
  using assms
  by (induction es arbitrary: t) (simp_all add: unswizzle_entry_list_map)

lemma swizzle_list_map:
  assumes "length t = 64"
  shows "swizzle_list reverse (map f t) = map f (swizzle_list reverse t)"
proof -
  have es: "\<forall>e\<in>set table. e ! 0 < length t \<and> e ! 1 < length t \<and> e ! 2 < length t \<and> e ! 3 < length t"
    using table_entries assms by simp
  show ?thesis
    using assms
    by (simp add: swizzle_list_def Let_def fold_swizzle_entry_list_map[OF es]
          fold_unswizzle_entry_list_map[OF es] swap_list_map length_fold_entries)
qed

lemma swizzle_list_iota_inverse:
  "swizzle_list True (swizzle_list False [0..<64]) = [0..<64]"
  by code_simp

lemma swizzle_list_iota_sorted_False: "sort (swizzle_list False [0..<64]) = [0..<64]"
  by code_simp

lemma swizzle_list_iota_sorted_True: "sort (swizzle_list True [0..<64]) = [0..<64]"
  by code_simp

lemma swizzle_list_via_iota:
  assumes "length t = 64"
  shows "swizzle_list reverse t = map (nth t) (swizzle_list reverse [0..<64])"
proof -
  have "t = map (nth t) [0..<64]" using assms map_nth[of t] by simp
  then have "swizzle_list reverse t = swizzle_list reverse (map (nth t) [0..<64])" by simp
  also have "\<dots> = map (nth t) (swizzle_list reverse [0..<64])"
    by (rule swizzle_list_map) simp
  finally show ?thesis .
qed

lemma swizzle_list_inverse:
  assumes "length t = 64"
  shows "swizzle_list True (swizzle_list False t) = t"
proof -
  have "swizzle_list True (swizzle_list False t)
          = swizzle_list True (map (nth t) (swizzle_list False [0..<64]))"
    using swizzle_list_via_iota[OF assms, of False] by simp
  also have "\<dots> = map (nth t) (swizzle_list True (swizzle_list False [0..<64]))"
    by (rule swizzle_list_map) simp
  also have "\<dots> = map (nth t) [0..<64]" by (simp only: swizzle_list_iota_inverse)
  also have "\<dots> = t" using assms map_nth[of t] by simp
  finally show ?thesis .
qed

lemma mset_swizzle_list:
  assumes "length t = 64"
  shows "mset (swizzle_list reverse t) = mset t"
proof -
  have "sort (swizzle_list reverse [0..<64]) = [0..<64]"
    by (cases reverse) (simp_all only: swizzle_list_iota_sorted_False swizzle_list_iota_sorted_True)
  then have "mset (swizzle_list reverse [0..<64]) = mset [0..<64]"
    by (metis mset_sort)
  then have "mset (map (nth t) (swizzle_list reverse [0..<64])) = mset (map (nth t) [0..<64])"
    by (simp only: mset_map)
  also have "map (nth t) [0..<64] = t" using assms map_nth[of t] by simp
  finally show ?thesis
    by (simp only: swizzle_list_via_iota[OF assms, of reverse])
qed

subsection \<open>The pointer version acts on the view like the list version\<close>

lemma length_view [simp]: "length (view p s) = length p"
  by (simp add: view_def)

lemma deref_view: "a < length p \<Longrightarrow> deref s (p ! a) = view p s ! a"
  by (simp add: view_def)

lemma length_assign [simp]: "length (st_pixels (assign s r v)) = length (st_pixels s)"
  by (cases r) simp_all

lemma refs_ok_assign [simp]: "refs_ok p (assign s r v) = refs_ok p s"
  by (simp add: refs_ok_def)

lemma deref_assign:
  assumes "\<forall>k. r = Pixel k \<longrightarrow> k < length (st_pixels s)"
  shows "deref (assign s r v) r' = (if r' = r then v else deref s r')"
  using assms by (cases r; cases r') (auto simp: nth_list_update)

lemma view_assign:
  assumes "distinct p" "a < length p" "refs_ok p s"
  shows "view p (assign s (p ! a) v) = (view p s)[a := v]"
proof (rule nth_equalityI)
  show "length (view p (assign s (p ! a) v)) = length ((view p s)[a := v])" by simp
next
  fix i assume "i < length (view p (assign s (p ! a) v))"
  then have i: "i < length p" by simp
  have ok: "\<forall>k. p ! a = Pixel k \<longrightarrow> k < length (st_pixels s)"
    using assms(2,3) by (auto simp: refs_ok_def dest: nth_mem)
  have "p ! i = p ! a \<longleftrightarrow> i = a"
    using assms(1,2) i by (simp add: nth_eq_iff_index_eq)
  then show "view p (assign s (p ! a) v) ! i = (view p s)[a := v] ! i"
    using i assms(2) by (simp add: view_def deref_assign[OF ok] nth_list_update)
qed

lemma frame_assign:
  "Pixel m \<noteq> r \<Longrightarrow> st_pixels (assign s r v) ! m = st_pixels s ! m"
  by (cases r) auto

lemma frame_assign_nth:
  "Pixel m \<notin> set p \<Longrightarrow> a < length p \<Longrightarrow> st_pixels (assign s (p ! a) v) ! m = st_pixels s ! m"
  by (metis frame_assign nth_mem)

lemma swizzle_entry_view:
  assumes "distinct p" "refs_ok p s"
    and "e ! 0 < length p" "e ! 1 < length p" "e ! 2 < length p" "e ! 3 < length p"
  shows "view p (swizzle_entry p e s) = swizzle_entry_list e (view p s)
       \<and> refs_ok p (swizzle_entry p e s)
       \<and> length (st_pixels (swizzle_entry p e s)) = length (st_pixels s)
       \<and> (Pixel m \<notin> set p \<longrightarrow> st_pixels (swizzle_entry p e s) ! m = st_pixels s ! m)"
  using assms
  by (simp add: swizzle_entry_def swizzle_entry_list_def Let_def deref_view view_assign
        frame_assign_nth)

lemma unswizzle_entry_view:
  assumes "distinct p" "refs_ok p s"
    and "e ! 0 < length p" "e ! 1 < length p" "e ! 2 < length p" "e ! 3 < length p"
  shows "view p (unswizzle_entry p e s) = unswizzle_entry_list e (view p s)
       \<and> refs_ok p (unswizzle_entry p e s)
       \<and> length (st_pixels (unswizzle_entry p e s)) = length (st_pixels s)
       \<and> (Pixel m \<notin> set p \<longrightarrow> st_pixels (unswizzle_entry p e s) ! m = st_pixels s ! m)"
  using assms
  by (simp add: unswizzle_entry_def unswizzle_entry_list_def Let_def deref_view view_assign
        frame_assign_nth)

lemma swap_px_view:
  assumes "distinct p" "refs_ok p s" "x < length p" "y < length p"
  shows "view p (swap_px (p ! x) (p ! y) s) = swap_list x y (view p s)
       \<and> refs_ok p (swap_px (p ! x) (p ! y) s)
       \<and> length (st_pixels (swap_px (p ! x) (p ! y) s)) = length (st_pixels s)
       \<and> (Pixel m \<notin> set p \<longrightarrow> st_pixels (swap_px (p ! x) (p ! y) s) ! m = st_pixels s ! m)"
  using assms
  by (simp add: swap_px_def swap_list_def Let_def deref_view view_assign frame_assign_nth)

lemma fold_swizzle_entry_view:
  assumes "distinct p" "refs_ok p s"
    and "\<forall>e\<in>set es. e ! 0 < length p \<and> e ! 1 < length p \<and> e ! 2 < length p \<and> e ! 3 < length p"
  shows "view p (fold (swizzle_entry p) es s) = fold swizzle_entry_list es (view p s)
       \<and> refs_ok p (fold (swizzle_entry p) es s)
       \<and> length (st_pixels (fold (swizzle_entry p) es s)) = length (st_pixels s)
       \<and> (Pixel m \<notin> set p \<longrightarrow> st_pixels (fold (swizzle_entry p) es s) ! m = st_pixels s ! m)"
  using assms
proof (induction es arbitrary: s)
  case Nil
  then show ?case by simp
next
  case (Cons e es)
  have e: "e ! 0 < length p" "e ! 1 < length p" "e ! 2 < length p" "e ! 3 < length p"
    using Cons.prems(3) by simp_all
  have step: "view p (swizzle_entry p e s) = swizzle_entry_list e (view p s)"
      "refs_ok p (swizzle_entry p e s)"
      "length (st_pixels (swizzle_entry p e s)) = length (st_pixels s)"
      "Pixel m \<notin> set p \<longrightarrow> st_pixels (swizzle_entry p e s) ! m = st_pixels s ! m"
    using swizzle_entry_view[OF Cons.prems(1,2) e, of m] by simp_all
  have "view p (fold (swizzle_entry p) es (swizzle_entry p e s))
          = fold swizzle_entry_list es (view p (swizzle_entry p e s))
       \<and> refs_ok p (fold (swizzle_entry p) es (swizzle_entry p e s))
       \<and> length (st_pixels (fold (swizzle_entry p) es (swizzle_entry p e s)))
           = length (st_pixels (swizzle_entry p e s))
       \<and> (Pixel m \<notin> set p \<longrightarrow> st_pixels (fold (swizzle_entry p) es (swizzle_entry p e s)) ! m
             = st_pixels (swizzle_entry p e s) ! m)"
    using Cons.prems(3) by (intro Cons.IH[OF Cons.prems(1) step(2)]) simp
  then show ?case using step by simp
qed

lemma fold_unswizzle_entry_view:
  assumes "distinct p" "refs_ok p s"
    and "\<forall>e\<in>set es. e ! 0 < length p \<and> e ! 1 < length p \<and> e ! 2 < length p \<and> e ! 3 < length p"
  shows "view p (fold (unswizzle_entry p) es s) = fold unswizzle_entry_list es (view p s)
       \<and> refs_ok p (fold (unswizzle_entry p) es s)
       \<and> length (st_pixels (fold (unswizzle_entry p) es s)) = length (st_pixels s)
       \<and> (Pixel m \<notin> set p \<longrightarrow> st_pixels (fold (unswizzle_entry p) es s) ! m = st_pixels s ! m)"
  using assms
proof (induction es arbitrary: s)
  case Nil
  then show ?case by simp
next
  case (Cons e es)
  have e: "e ! 0 < length p" "e ! 1 < length p" "e ! 2 < length p" "e ! 3 < length p"
    using Cons.prems(3) by simp_all
  have step: "view p (unswizzle_entry p e s) = unswizzle_entry_list e (view p s)"
      "refs_ok p (unswizzle_entry p e s)"
      "length (st_pixels (unswizzle_entry p e s)) = length (st_pixels s)"
      "Pixel m \<notin> set p \<longrightarrow> st_pixels (unswizzle_entry p e s) ! m = st_pixels s ! m"
    using unswizzle_entry_view[OF Cons.prems(1,2) e, of m] by simp_all
  have "view p (fold (unswizzle_entry p) es (unswizzle_entry p e s))
          = fold unswizzle_entry_list es (view p (unswizzle_entry p e s))
       \<and> refs_ok p (fold (unswizzle_entry p) es (unswizzle_entry p e s))
       \<and> length (st_pixels (fold (unswizzle_entry p) es (unswizzle_entry p e s)))
           = length (st_pixels (unswizzle_entry p e s))
       \<and> (Pixel m \<notin> set p \<longrightarrow> st_pixels (fold (unswizzle_entry p) es (unswizzle_entry p e s)) ! m
             = st_pixels (unswizzle_entry p e s) ! m)"
    using Cons.prems(3) by (intro Cons.IH[OF Cons.prems(1) step(2)]) simp
  then show ?case using step by simp
qed

lemma swizzle_tile_view:
  assumes "distinct p" "refs_ok p s" "length p = 64"
  shows "view p (swizzle_tile p reverse s) = swizzle_list reverse (view p s)
       \<and> length (st_pixels (swizzle_tile p reverse s)) = length (st_pixels s)
       \<and> (Pixel m \<notin> set p \<longrightarrow> st_pixels (swizzle_tile p reverse s) ! m = st_pixels s ! m)"
proof -
  have es: "\<forall>e\<in>set table. e ! 0 < length p \<and> e ! 1 < length p \<and> e ! 2 < length p \<and> e ! 3 < length p"
    using table_entries assms(3) by simp
  define s1 where "s1 = (if \<not> reverse then fold (swizzle_entry p) table s
                         else fold (unswizzle_entry p) table s)"
  define t1 where "t1 = (if \<not> reverse then fold swizzle_entry_list table (view p s)
                         else fold unswizzle_entry_list table (view p s))"
  have s1: "view p s1 = t1" "refs_ok p s1" "length (st_pixels s1) = length (st_pixels s)"
    "Pixel m \<notin> set p \<longrightarrow> st_pixels s1 ! m = st_pixels s ! m"
    using fold_swizzle_entry_view[OF assms(1,2) es, of m]
      fold_unswizzle_entry_view[OF assms(1,2) es, of m]
    by (simp_all add: s1_def t1_def)
  define s2 where "s2 = swap_px (p ! 12) (p ! 18) s1"
  have s2: "view p s2 = swap_list 12 18 t1" "refs_ok p s2"
    "length (st_pixels s2) = length (st_pixels s)"
    "Pixel m \<notin> set p \<longrightarrow> st_pixels s2 ! m = st_pixels s ! m"
    using swap_px_view[OF assms(1) s1(2), of 12 18 m] s1 assms(3) by (simp_all add: s2_def)
  define s3 where "s3 = swap_px (p ! 13) (p ! 19) s2"
  have s3: "view p s3 = swap_list 13 19 (swap_list 12 18 t1)" "refs_ok p s3"
    "length (st_pixels s3) = length (st_pixels s)"
    "Pixel m \<notin> set p \<longrightarrow> st_pixels s3 ! m = st_pixels s ! m"
    using swap_px_view[OF assms(1) s2(2), of 13 19 m] s2 assms(3) by (simp_all add: s3_def)
  define s4 where "s4 = swap_px (p ! 44) (p ! 50) s3"
  have s4: "view p s4 = swap_list 44 50 (swap_list 13 19 (swap_list 12 18 t1))" "refs_ok p s4"
    "length (st_pixels s4) = length (st_pixels s)"
    "Pixel m \<notin> set p \<longrightarrow> st_pixels s4 ! m = st_pixels s ! m"
    using swap_px_view[OF assms(1) s3(2), of 44 50 m] s3 assms(3) by (simp_all add: s4_def)
  define s5 where "s5 = swap_px (p ! 45) (p ! 51) s4"
  have s5: "view p s5 = swap_list 45 51 (swap_list 44 50 (swap_list 13 19 (swap_list 12 18 t1)))"
    "length (st_pixels s5) = length (st_pixels s)"
    "Pixel m \<notin> set p \<longrightarrow> st_pixels s5 ! m = st_pixels s ! m"
    using swap_px_view[OF assms(1) s4(2), of 45 51 m] s4 assms(3) by (simp_all add: s5_def)
  have "swizzle_tile p reverse s = s5"
    by (simp add: swizzle_tile_def Let_def s5_def s4_def s3_def s2_def s1_def)
  moreover have "swizzle_list reverse (view p s)
      = swap_list 45 51 (swap_list 44 50 (swap_list 13 19 (swap_list 12 18 t1)))"
    by (simp add: swizzle_list_def Let_def t1_def)
  ultimately show ?thesis using s5 by simp
qed

subsection \<open>The indices of a tile\<close>

lemma length_tile_indices [simp]: "length (tile_indices stride j i) = 64"
  by (simp add: tile_indices_def)

lemma tile_index_div_mod:
  assumes "i + 8 \<le> stride" "k < 64"
  shows "tile_index stride j i k div stride = j + k div 8"
    and "tile_index stride j i k mod stride = i + k mod 8"
proof -
  have x: "i + k mod 8 < stride" using assms(1) by (simp add: less_le_trans[OF _ assms(1)])
  show "tile_index stride j i k div stride = j + k div 8"
    using x by (simp add: tile_index_def)
  show "tile_index stride j i k mod stride = i + k mod 8"
    using x by (simp add: tile_index_def)
qed

lemma in_tile_indices:
  assumes "i + 8 \<le> stride"
  shows "m \<in> set (tile_indices stride j i) \<longleftrightarrow>
           j \<le> m div stride \<and> m div stride < j + 8 \<and> i \<le> m mod stride \<and> m mod stride < i + 8"
proof
  assume "m \<in> set (tile_indices stride j i)"
  then obtain k where k: "k < 64" "m = tile_index stride j i k"
    by (auto simp: tile_indices_def)
  have "k div 8 < 8" "k mod 8 < 8" using k(1) by simp_all
  then show "j \<le> m div stride \<and> m div stride < j + 8 \<and> i \<le> m mod stride \<and> m mod stride < i + 8"
    using tile_index_div_mod[OF assms k(1), of j] k(2) by simp
next
  assume a: "j \<le> m div stride \<and> m div stride < j + 8 \<and> i \<le> m mod stride \<and> m mod stride < i + 8"
  obtain a b where ab: "m div stride = j + a" "m mod stride = i + b" "a < 8" "b < 8"
    using a by (metis add_less_cancel_left le_Suc_ex)
  define k where "k = a * 8 + b"
  have k: "k < 64" "k div 8 = a" "k mod 8 = b"
    using ab(3,4) by (simp_all add: k_def)
  have "tile_index stride j i k = (m div stride) * stride + m mod stride"
    by (simp add: tile_index_def k ab)
  then have "tile_index stride j i k = m" by simp
  then show "m \<in> set (tile_indices stride j i)"
    using k(1) by (auto simp: tile_indices_def)
qed

lemma distinct_tile_indices:
  assumes "i + 8 \<le> stride"
  shows "distinct (tile_indices stride j i)"
proof -
  have "inj_on (tile_index stride j i) {0..<64}"
  proof (rule inj_onI)
    fix k k' assume k: "k \<in> {0..<64}" "k' \<in> {0..<64}"
      and eq: "tile_index stride j i k = tile_index stride j i k'"
    have "j + k div 8 = j + k' div 8" "i + k mod 8 = i + k' mod 8"
      using tile_index_div_mod[OF assms, of k j] tile_index_div_mod[OF assms, of k' j] k eq
      by simp_all
    then have "k div 8 = k' div 8" "k mod 8 = k' mod 8" by simp_all
    then show "k = k'" by (metis div_mult_mod_eq)
  qed
  then show ?thesis by (simp add: tile_indices_def distinct_map)
qed

lemma tile_indices_disjoint:
  assumes "i + 8 \<le> stride" "i' + 8 \<le> stride" "8 dvd j" "8 dvd j'" "8 dvd i" "8 dvd i'"
    and "(j, i) \<noteq> (j', i')"
  shows "set (tile_indices stride j i) \<inter> set (tile_indices stride j' i') = {}"
proof (rule ccontr)
  assume "set (tile_indices stride j i) \<inter> set (tile_indices stride j' i') \<noteq> {}"
  then obtain m where m: "m \<in> set (tile_indices stride j i)" "m \<in> set (tile_indices stride j' i')"
    by blast
  define y where "y = m div stride"
  define x where "x = m mod stride"
  have 1: "j \<le> y" "y < j + 8" "i \<le> x" "x < i + 8"
    using m(1) in_tile_indices[OF assms(1)] by (simp_all add: y_def x_def)
  have 2: "j' \<le> y" "y < j' + 8" "i' \<le> x" "x < i' + 8"
    using m(2) in_tile_indices[OF assms(2)] by (simp_all add: y_def x_def)
  have "j = j'" using 1(1,2) 2(1,2) assms(3,4) by presburger
  moreover have "i = i'" using 1(3,4) 2(3,4) assms(5,6) by presburger
  ultimately show False using assms(7) by simp
qed

lemma tile_index_in_buffer:
  assumes "i + 8 \<le> stride" "j + 8 \<le> height" "stride * height \<le> n" "k < 64"
  shows "tile_index stride j i k < n"
proof -
  have x: "i + k mod 8 < stride" using assms(1) by (simp add: less_le_trans[OF _ assms(1)])
  have "k div 8 < 8" using assms(4) by simp
  then have "j + k div 8 + 1 \<le> height" using assms(2) by simp
  then have "(j + k div 8 + 1) * stride \<le> height * stride" by (rule mult_le_mono1)
  moreover have "tile_index stride j i k < (j + k div 8 + 1) * stride"
    using x by (simp add: tile_index_def)
  ultimately show ?thesis using assms(3) by (simp add: mult.commute)
qed

subsection \<open>One tile\<close>

lemma sequence_err_map_Inr: "sequence_err (map (\<lambda>k. Inr (f k)) ks) = Inr (map f ks)"
  by (induction ks) simp_all

lemma define_refs_tile:
  assumes "i + 8 \<le> width" "width \<le> img_stride img" "j + 8 \<le> height"
    and "img_stride img * height \<le> length (img_pixels img)"
  shows "define_refs img height width j i = Inr (map Pixel (tile_indices (img_stride img) j i))"
proof -
  have s: "i + 8 \<le> img_stride img" using assms(1,2) by simp
  have "define_ref img height width j i (k div 8) (k mod 8)
          = Inr (Pixel (tile_index (img_stride img) j i k))" if "k \<in> set [0..<64]" for k
  proof -
    have k: "k < 64" using that by simp
    then have "k div 8 < 8" "k mod 8 < 8" by simp_all
    then have "j + k div 8 < height" "i + k mod 8 < width"
      using assms(1,3) by simp_all
    moreover have "tile_index (img_stride img) j i k < length (img_pixels img)"
      using tile_index_in_buffer[OF s assms(3,4) k] .
    ultimately show ?thesis
      by (simp add: define_ref_def vec_at_def tile_index_def)
  qed
  then have "map (\<lambda>k. define_ref img height width j i (k div 8) (k mod 8)) [0..<64]
               = map (\<lambda>k. Inr (Pixel (tile_index (img_stride img) j i k))) [0..<64]"
    by (intro map_cong) simp_all
  then show ?thesis
    unfolding define_refs_def tile_indices_def
    by (simp only: sequence_err_map_Inr map_map o_def)
qed

lemma swizzle_tile_swizzled:
  assumes "i + 8 \<le> stride" "j + 8 \<le> height" "stride * height \<le> length ps"
  shows "swizzled stride reverse {(j, i)} ps
           (st_pixels (swizzle_tile (map Pixel (tile_indices stride j i)) reverse
                         \<lparr>st_pixels = ps, st_undef = u\<rparr>))"
proof -
  let ?p = "map Pixel (tile_indices stride j i)"
  let ?s = "\<lparr>st_pixels = ps, st_undef = u\<rparr>"
  have d: "distinct ?p"
    using distinct_tile_indices[OF assms(1)] by (simp add: distinct_map inj_on_def)
  have ok: "refs_ok ?p ?s"
    using tile_index_in_buffer[OF assms]
    by (auto simp: refs_ok_def tile_indices_def)
  have v: "view ?p s' = map (nth (st_pixels s')) (tile_indices stride j i)" for s'
    by (simp add: view_def o_def)
  have "view ?p (swizzle_tile ?p reverse ?s) = swizzle_list reverse (view ?p ?s)
       \<and> length (st_pixels (swizzle_tile ?p reverse ?s)) = length (st_pixels ?s)
       \<and> (Pixel m \<notin> set ?p \<longrightarrow> st_pixels (swizzle_tile ?p reverse ?s) ! m = st_pixels ?s ! m)"
    for m
    by (rule swizzle_tile_view[OF d ok]) simp
  then show ?thesis
    unfolding swizzled_def v by auto
qed

subsection \<open>Several tiles\<close>

lemma swizzled_empty: "swizzled stride reverse {} ps ps"
  by (simp add: swizzled_def)

lemma swizzled_union:
  assumes 1: "swizzled stride reverse T1 ps ps1"
    and 2: "swizzled stride reverse T2 ps1 ps2"
    and disj: "\<forall>(j, i)\<in>T1. \<forall>(j', i')\<in>T2.
                 set (tile_indices stride j i) \<inter> set (tile_indices stride j' i') = {}"
  shows "swizzled stride reverse (T1 \<union> T2) ps ps2"
  unfolding swizzled_def
proof (intro conjI ballI allI impI)
  show "length ps2 = length ps" using 1 2 by (simp add: swizzled_def)
next
  fix t assume t: "t \<in> T1 \<union> T2"
  obtain j i where ji: "t = (j, i)" by (cases t)
  have "map (nth ps2) (tile_indices stride j i)
          = swizzle_list reverse (map (nth ps) (tile_indices stride j i))"
  proof (cases "(j, i) \<in> T1")
    case True
    have "ps2 ! m = ps1 ! m" if "m \<in> set (tile_indices stride j i)" for m
    proof -
      have "\<forall>(j', i')\<in>T2. m \<notin> set (tile_indices stride j' i')"
        using disj True that by fastforce
      then show ?thesis using 2 by (simp add: swizzled_def)
    qed
    then have "map (nth ps2) (tile_indices stride j i) = map (nth ps1) (tile_indices stride j i)"
      by simp
    moreover have "map (nth ps1) (tile_indices stride j i)
          = swizzle_list reverse (map (nth ps) (tile_indices stride j i))"
      using 1 True by (auto simp: swizzled_def)
    ultimately show ?thesis by (simp only:)
  next
    case False
    then have T2: "(j, i) \<in> T2" using t ji by simp
    have "ps1 ! m = ps ! m" if "m \<in> set (tile_indices stride j i)" for m
    proof -
      have "\<forall>(j', i')\<in>T1. m \<notin> set (tile_indices stride j' i')"
        using disj T2 that by fastforce
      then show ?thesis using 1 by (simp add: swizzled_def)
    qed
    then have "map (nth ps1) (tile_indices stride j i) = map (nth ps) (tile_indices stride j i)"
      by simp
    moreover have "map (nth ps2) (tile_indices stride j i)
          = swizzle_list reverse (map (nth ps1) (tile_indices stride j i))"
      using 2 T2 by (auto simp: swizzled_def)
    ultimately show ?thesis by (simp only:)
  qed
  then show "case t of (j, i) \<Rightarrow> map (nth ps2) (tile_indices stride j i)
          = swizzle_list reverse (map (nth ps) (tile_indices stride j i))"
    by (simp add: ji)
next
  fix m assume m: "\<forall>(j, i)\<in>T1 \<union> T2. m \<notin> set (tile_indices stride j i)"
  then have "ps2 ! m = ps1 ! m" using 2 by (simp add: swizzled_def)
  moreover have "ps1 ! m = ps ! m" using 1 m by (simp add: swizzled_def)
  ultimately show "ps2 ! m = ps ! m" by simp
qed

subsection \<open>The two loops\<close>

lemma aligned_step: "8 dvd i \<Longrightarrow> 8 dvd n \<Longrightarrow> i < n \<Longrightarrow> i + 8 \<le> (n::nat)"
  by presburger

lemma swizzle_cols_swizzled:
  assumes "width \<le> img_stride img" "img_stride img * height \<le> length (img_pixels img)"
    and "8 dvd width" "j + 8 \<le> height" "8 dvd j" "8 dvd i"
  shows "\<exists>ps'. swizzle_cols u reverse height width j i img = Inr (img\<lparr>img_pixels := ps'\<rparr>)
           \<and> swizzled (img_stride img) reverse
                ({j} \<times> {i'. i \<le> i' \<and> i' < width \<and> 8 dvd i'}) (img_pixels img) ps'"
  using assms
proof (induction u reverse height width j i img rule: swizzle_cols.induct)
  case (1 u reverse height width j i img)
  let ?T = "\<lambda>i0. {j} \<times> {i'. i0 \<le> i' \<and> i' < width \<and> 8 dvd i'}"
  show ?case
  proof (cases "i < width")
    case False
    then have "?T i = {}" by auto
    then have "swizzled (img_stride img) reverse (?T i) (img_pixels img) (img_pixels img)"
      by (simp only: swizzled_empty)
    moreover have "swizzle_cols u reverse height width j i img = Inr (img\<lparr>img_pixels := img_pixels img\<rparr>)"
      using False by (subst swizzle_cols.simps) simp
    ultimately show ?thesis by blast
  next
    case True
    have i8: "i + 8 \<le> width" using aligned_step[OF "1.prems"(6,3) True] .
    let ?p = "map Pixel (tile_indices (img_stride img) j i)"
    define s where "s = swizzle_tile ?p reverse \<lparr>st_pixels = img_pixels img, st_undef = u j i\<rparr>"
    define img1 where "img1 = img\<lparr>img_pixels := st_pixels s\<rparr>"
    have refs: "define_refs img height width j i = Inr ?p"
      using define_refs_tile[OF i8 "1.prems"(1,4,2)] .
    have tile: "swizzled (img_stride img) reverse {(j, i)} (img_pixels img) (st_pixels s)"
      unfolding s_def using i8 "1.prems"(1,4,2)
      by (intro swizzle_tile_swizzled[where height = height]) simp_all
    then have len: "length (st_pixels s) = length (img_pixels img)"
      by (simp add: swizzled_def)
    have "\<exists>ps'. swizzle_cols u reverse height width j (i + 8) img1 = Inr (img1\<lparr>img_pixels := ps'\<rparr>)
           \<and> swizzled (img_stride img1) reverse (?T (i + 8)) (img_pixels img1) ps'"
      unfolding img1_def
      using "1.prems" len
      by (intro "1.IH"[OF True refs s_def]) simp_all
    then obtain ps' where ps': "swizzle_cols u reverse height width j (i + 8) img1 = Inr (img1\<lparr>img_pixels := ps'\<rparr>)"
      and rest: "swizzled (img_stride img) reverse (?T (i + 8)) (st_pixels s) ps'"
      by (auto simp: img1_def)
    have disj: "\<forall>(j0, i0)\<in>{(j, i)}. \<forall>(j', i')\<in>?T (i + 8).
                 set (tile_indices (img_stride img) j0 i0) \<inter> set (tile_indices (img_stride img) j' i') = {}"
    proof -
      have "set (tile_indices (img_stride img) j i) \<inter> set (tile_indices (img_stride img) j i') = {}"
        if "i + 8 \<le> i'" "i' < width" "8 dvd i'" for i'
      proof -
        have "i' + 8 \<le> width" using aligned_step[OF that(3) "1.prems"(3) that(2)] .
        then show ?thesis
          using i8 "1.prems"(1,5,6) that
          by (intro tile_indices_disjoint) simp_all
      qed
      then show ?thesis by auto
    qed
    have "{(j, i)} \<union> ?T (i + 8) = ?T i"
    proof -
      have "i \<le> i' \<and> i' < width \<and> 8 dvd i' \<longleftrightarrow> i' = i \<or> (i + 8 \<le> i' \<and> i' < width \<and> 8 dvd i')" for i'
        using True "1.prems"(6) by presburger
      then show ?thesis by auto
    qed
    then have "swizzled (img_stride img) reverse (?T i) (img_pixels img) ps'"
      using swizzled_union[OF tile rest disj] by simp
    moreover have "swizzle_cols u reverse height width j i img = Inr (img\<lparr>img_pixels := ps'\<rparr>)"
      using True refs ps'
      by (subst swizzle_cols.simps) (simp add: Let_def s_def img1_def)
    ultimately show ?thesis by blast
  qed
qed

lemma swizzle_rows_swizzled:
  assumes "width \<le> img_stride img" "img_stride img * height \<le> length (img_pixels img)"
    and "8 dvd width" "8 dvd height" "8 dvd j"
  shows "\<exists>ps'. swizzle_rows u reverse height width j img = Inr (img\<lparr>img_pixels := ps'\<rparr>)
           \<and> swizzled (img_stride img) reverse
                ({j'. j \<le> j' \<and> j' < height \<and> 8 dvd j'} \<times> {i'. i' < width \<and> 8 dvd i'})
                (img_pixels img) ps'"
  using assms
proof (induction u reverse height width j img rule: swizzle_rows.induct)
  case (1 u reverse height width j img)
  let ?C = "{i'. i' < width \<and> 8 dvd i'}"
  let ?T = "\<lambda>j0. {j'. j0 \<le> j' \<and> j' < height \<and> 8 dvd j'} \<times> ?C"
  show ?case
  proof (cases "j < height")
    case False
    then have "?T j = {}" by auto
    then have "swizzled (img_stride img) reverse (?T j) (img_pixels img) (img_pixels img)"
      by (simp only: swizzled_empty)
    moreover have "swizzle_rows u reverse height width j img = Inr (img\<lparr>img_pixels := img_pixels img\<rparr>)"
      using False by (subst swizzle_rows.simps) simp
    ultimately show ?thesis by blast
  next
    case True
    have j8: "j + 8 \<le> height" using aligned_step[OF "1.prems"(5,4) True] .
    obtain ps1 where c: "swizzle_cols u reverse height width j 0 img = Inr (img\<lparr>img_pixels := ps1\<rparr>)"
      and row: "swizzled (img_stride img) reverse ({j} \<times> {i'. 0 \<le> i' \<and> i' < width \<and> 8 dvd i'})
                  (img_pixels img) ps1"
      using swizzle_cols_swizzled[OF "1.prems"(1,2,3) j8 "1.prems"(5), of 0 u reverse] by auto
    define img1 where "img1 = img\<lparr>img_pixels := ps1\<rparr>"
    have len: "length ps1 = length (img_pixels img)" using row by (simp add: swizzled_def)
    have "\<exists>ps'. swizzle_rows u reverse height width (j + 8) img1 = Inr (img1\<lparr>img_pixels := ps'\<rparr>)
           \<and> swizzled (img_stride img1) reverse (?T (j + 8)) (img_pixels img1) ps'"
      using "1.prems" len c
      by (intro "1.IH"[OF True]) (simp_all add: img1_def)
    then obtain ps' where ps': "swizzle_rows u reverse height width (j + 8) img1 = Inr (img1\<lparr>img_pixels := ps'\<rparr>)"
      and rest: "swizzled (img_stride img) reverse (?T (j + 8)) ps1 ps'"
      by (auto simp: img1_def)
    have row': "swizzled (img_stride img) reverse ({j} \<times> ?C) (img_pixels img) ps1"
      using row by simp
    have disj: "\<forall>(j0, i0)\<in>{j} \<times> ?C. \<forall>(j', i')\<in>?T (j + 8).
                 set (tile_indices (img_stride img) j0 i0) \<inter> set (tile_indices (img_stride img) j' i') = {}"
    proof -
      have "set (tile_indices (img_stride img) j i0) \<inter> set (tile_indices (img_stride img) j' i') = {}"
        if "i0 < width" "8 dvd i0" "j + 8 \<le> j'" "8 dvd j'" "i' < width" "8 dvd i'" for i0 j' i'
      proof -
        have "i0 + 8 \<le> width" "i' + 8 \<le> width"
          using aligned_step[OF that(2) "1.prems"(3) that(1)]
            aligned_step[OF that(6) "1.prems"(3) that(5)] by simp_all
        then show ?thesis
          using "1.prems"(1,5) that
          by (intro tile_indices_disjoint) simp_all
      qed
      then show ?thesis by auto
    qed
    have "({j} \<times> ?C) \<union> ?T (j + 8) = ?T j"
    proof -
      have "j \<le> j' \<and> j' < height \<and> 8 dvd j' \<longleftrightarrow> j' = j \<or> (j + 8 \<le> j' \<and> j' < height \<and> 8 dvd j')" for j'
        using True "1.prems"(5) by presburger
      then show ?thesis by auto
    qed
    then have "swizzled (img_stride img) reverse (?T j) (img_pixels img) ps'"
      using swizzled_union[OF row' rest disj] by simp
    moreover have "swizzle_rows u reverse height width j img = Inr (img\<lparr>img_pixels := ps'\<rparr>)"
      using True c ps'
      by (subst swizzle_rows.simps) (simp add: img1_def)
    ultimately show ?thesis by blast
  qed
qed

subsection \<open>The whole image\<close>

lemma swizzle_swizzled:
  assumes "img_w img \<le> img_stride img" "img_stride img * img_h img \<le> length (img_pixels img)"
    and "8 dvd img_w img" "8 dvd img_h img"
  shows "\<exists>ps'. swizzle u img reverse = Inr (img\<lparr>img_pixels := ps'\<rparr>)
           \<and> swizzled (img_stride img) reverse
                ({j. j < img_h img \<and> 8 dvd j} \<times> {i. i < img_w img \<and> 8 dvd i})
                (img_pixels img) ps'"
  using swizzle_rows_swizzled[OF assms, of 0 u reverse] by (simp add: swizzle_def)

lemma swizzled_inverse:
  assumes 1: "swizzled stride False T ps ps1" and 2: "swizzled stride True T ps1 ps2"
  shows "ps2 = ps"
proof (rule nth_equalityI)
  show "length ps2 = length ps" using 1 2 by (simp add: swizzled_def)
next
  fix m assume "m < length ps2"
  show "ps2 ! m = ps ! m"
  proof (cases "\<exists>(j, i)\<in>T. m \<in> set (tile_indices stride j i)")
    case True
    then obtain j i where t: "(j, i) \<in> T" and m: "m \<in> set (tile_indices stride j i)" by auto
    let ?ix = "tile_indices stride j i"
    obtain k where k: "k < 64" "?ix ! k = m"
      using m by (auto simp: in_set_conv_nth)
    have e1: "map (nth ps1) ?ix = swizzle_list False (map (nth ps) ?ix)"
      using 1 t by (auto simp: swizzled_def)
    have e2: "map (nth ps2) ?ix = swizzle_list True (map (nth ps1) ?ix)"
      using 2 t by (auto simp: swizzled_def)
    have "map (nth ps2) ?ix = map (nth ps) ?ix"
      unfolding e2 e1 by (rule swizzle_list_inverse) simp
    then have "map (nth ps2) ?ix ! k = map (nth ps) ?ix ! k" by (simp only:)
    then have "ps2 ! (?ix ! k) = ps ! (?ix ! k)" using k(1) by simp
    then show ?thesis by (simp only: k(2))
  next
    case False
    then have out: "\<forall>(j, i)\<in>T. m \<notin> set (tile_indices stride j i)" by auto
    have "ps2 ! m = ps1 ! m" using 2 out by (simp add: swizzled_def)
    also have "ps1 ! m = ps ! m" using 1 out by (simp add: swizzled_def)
    finally show ?thesis .
  qed
qed

text \<open>
  Claim C2. For every canvas whose width and height are multiples of 8 (with the canvas
  invariant: the width is at most the stride, and the pixel buffer holds \<open>stride * h\<close>
  pixels), the forward swizzle followed by the reverse swizzle returns the canvas itself; and
  each pass, forward or reverse, succeeds, keeps the dimensions, leaves in every 8 x 8 tile
  the same pixels with the same multiplicities (it only permutes the tile), and changes no
  pixel outside the canvas. The content of the uninitialised scratch pixel (\<open>u\<close>, \<open>u'\<close>)
  does not matter.
\<close>

theorem swizzle_involution:
  assumes "img_w img \<le> img_stride img"
    and "img_stride img * img_h img \<le> length (img_pixels img)"
    and "8 dvd img_w img" "8 dvd img_h img"
  shows "(\<exists>img1. swizzle u img False = Inr img1 \<and> swizzle u' img1 True = Inr img)
       \<and> (\<forall>reverse. \<exists>img'. swizzle u img reverse = Inr img'
            \<and> img_w img' = img_w img \<and> img_h img' = img_h img
            \<and> img_stride img' = img_stride img
            \<and> length (img_pixels img') = length (img_pixels img)
            \<and> (\<forall>j i. 8 dvd j \<and> j < img_h img \<and> 8 dvd i \<and> i < img_w img \<longrightarrow>
                 mset (map (\<lambda>k. img_pixels img' ! ((j + k div 8) * img_stride img + (i + k mod 8)))
                        [0..<64])
                 = mset (map (\<lambda>k. img_pixels img ! ((j + k div 8) * img_stride img + (i + k mod 8)))
                          [0..<64]))
            \<and> (\<forall>m. \<not> (m div img_stride img < img_h img \<and> m mod img_stride img < img_w img)
                     \<longrightarrow> img_pixels img' ! m = img_pixels img ! m))"
proof (intro conjI allI)
  let ?T = "{j. j < img_h img \<and> 8 dvd j} \<times> {i. i < img_w img \<and> 8 dvd i}"
  obtain ps1 where f: "swizzle u img False = Inr (img\<lparr>img_pixels := ps1\<rparr>)"
    and r1: "swizzled (img_stride img) False ?T (img_pixels img) ps1"
    using swizzle_swizzled[OF assms, of u False] by blast
  let ?img1 = "img\<lparr>img_pixels := ps1\<rparr>"
  have len1: "length ps1 = length (img_pixels img)" using r1 by (simp add: swizzled_def)
  have "\<exists>ps'. swizzle u' ?img1 True = Inr (?img1\<lparr>img_pixels := ps'\<rparr>)
           \<and> swizzled (img_stride ?img1) True
                ({j. j < img_h ?img1 \<and> 8 dvd j} \<times> {i. i < img_w ?img1 \<and> 8 dvd i})
                (img_pixels ?img1) ps'"
    using assms len1 by (intro swizzle_swizzled) simp_all
  then obtain ps2 where b: "swizzle u' ?img1 True = Inr (img\<lparr>img_pixels := ps2\<rparr>)"
    and r2: "swizzled (img_stride img) True ?T ps1 ps2"
    by auto
  have "ps2 = img_pixels img" using swizzled_inverse[OF r1 r2] .
  then have "swizzle u' ?img1 True = Inr img" using b by simp
  then show "\<exists>img1. swizzle u img False = Inr img1 \<and> swizzle u' img1 True = Inr img"
    using f by blast
next
  fix reverse
  let ?T = "{j. j < img_h img \<and> 8 dvd j} \<times> {i. i < img_w img \<and> 8 dvd i}"
  obtain ps' where f: "swizzle u img reverse = Inr (img\<lparr>img_pixels := ps'\<rparr>)"
    and r: "swizzled (img_stride img) reverse ?T (img_pixels img) ps'"
    using swizzle_swizzled[OF assms, of u reverse] by blast
  have len: "length ps' = length (img_pixels img)" using r by (simp add: swizzled_def)
  have tiles: "mset (map (\<lambda>k. ps' ! ((j + k div 8) * img_stride img + (i + k mod 8))) [0..<64])
                 = mset (map (\<lambda>k. img_pixels img ! ((j + k div 8) * img_stride img + (i + k mod 8)))
                          [0..<64])"
    if "8 dvd j \<and> j < img_h img \<and> 8 dvd i \<and> i < img_w img" for j i
  proof -
    have "(j, i) \<in> ?T" using that by simp
    then have "map (nth ps') (tile_indices (img_stride img) j i)
                 = swizzle_list reverse (map (nth (img_pixels img)) (tile_indices (img_stride img) j i))"
      using r by (auto simp: swizzled_def)
    then have "mset (map (nth ps') (tile_indices (img_stride img) j i))
                 = mset (map (nth (img_pixels img)) (tile_indices (img_stride img) j i))"
      by (simp add: mset_swizzle_list)
    then show ?thesis
      by (simp add: tile_indices_def tile_index_def o_def)
  qed
  have frame: "ps' ! m = img_pixels img ! m"
    if "\<not> (m div img_stride img < img_h img \<and> m mod img_stride img < img_w img)" for m
  proof -
    have "m \<notin> set (tile_indices (img_stride img) j i)" if t: "(j, i) \<in> ?T" for j i
    proof
      assume m: "m \<in> set (tile_indices (img_stride img) j i)"
      have i8: "i + 8 \<le> img_w img" using t aligned_step[of i "img_w img"] assms(3) by simp
      have j8: "j + 8 \<le> img_h img" using t aligned_step[of j "img_h img"] assms(4) by simp
      have "i + 8 \<le> img_stride img" using i8 assms(1) by simp
      then have "m div img_stride img < j + 8" "m mod img_stride img < i + 8"
        using m in_tile_indices[of i "img_stride img" m j] by simp_all
      then show False using i8 j8 \<open>\<not> (m div img_stride img < img_h img \<and> m mod img_stride img < img_w img)\<close>
        by simp
    qed
    then show ?thesis using r by (auto simp: swizzled_def)
  qed
  show "\<exists>img'. swizzle u img reverse = Inr img'
            \<and> img_w img' = img_w img \<and> img_h img' = img_h img
            \<and> img_stride img' = img_stride img
            \<and> length (img_pixels img') = length (img_pixels img)
            \<and> (\<forall>j i. 8 dvd j \<and> j < img_h img \<and> 8 dvd i \<and> i < img_w img \<longrightarrow>
                 mset (map (\<lambda>k. img_pixels img' ! ((j + k div 8) * img_stride img + (i + k mod 8)))
                        [0..<64])
                 = mset (map (\<lambda>k. img_pixels img ! ((j + k div 8) * img_stride img + (i + k mod 8)))
                          [0..<64]))
            \<and> (\<forall>m. \<not> (m div img_stride img < img_h img \<and> m mod img_stride img < img_w img)
                     \<longrightarrow> img_pixels img' ! m = img_pixels img ! m)"
    using f len tiles frame
    by (intro exI[of _ "img\<lparr>img_pixels := ps'\<rparr>"]) simp
qed

text \<open>
  An instance: an 8 x 8 canvas whose pixel \<open>k\<close> has blue value \<open>k\<close>. The forward pass
  leaves the pixels in Morton order (0, 1, 8, 9, 2, 3, 10, 11, ...), and the reverse pass
  gives the canvas back.
\<close>

theorem swizzle_involution_witness:
  "(\<exists>img1. swizzle (\<lambda>j i. RGBA_zero)
             \<lparr>img_stride = 8, img_w = 8, img_h = 8,
              img_pixels = map (\<lambda>k. \<lparr>px_b = of_nat k, px_g = 0, px_r = 0, px_a = 255\<rparr>)
                             [0..<64]\<rparr> False = Inr img1
        \<and> swizzle (\<lambda>j i. RGBA_zero) img1 True =
            Inr \<lparr>img_stride = 8, img_w = 8, img_h = 8,
                 img_pixels = map (\<lambda>k. \<lparr>px_b = of_nat k, px_g = 0, px_r = 0, px_a = 255\<rparr>)
                                [0..<64]\<rparr>)
   \<and> swizzle (\<lambda>j i. RGBA_zero)
       \<lparr>img_stride = 8, img_w = 8, img_h = 8,
        img_pixels = map (\<lambda>k. \<lparr>px_b = of_nat k, px_g = 0, px_r = 0, px_a = 255\<rparr>) [0..<64]\<rparr>
       False
     = Inr \<lparr>img_stride = 8, img_w = 8, img_h = 8,
        img_pixels = map (\<lambda>k. \<lparr>px_b = of_nat k, px_g = 0, px_r = 0, px_a = 255\<rparr>)
          [0, 1, 8, 9, 2, 3, 10, 11, 16, 17, 24, 25, 18, 19, 26, 27, 4, 5, 12, 13, 6, 7, 14, 15,
           20, 21, 28, 29, 22, 23, 30, 31, 32, 33, 40, 41, 34, 35, 42, 43, 48, 49, 56, 57, 50,
           51, 58, 59, 36, 37, 44, 45, 38, 39, 46, 47, 52, 53, 60, 61, 54, 55, 62, 63]\<rparr>"
proof -
  have e: "swizzle (\<lambda>j i. RGBA_zero)
       \<lparr>img_stride = 8, img_w = 8, img_h = 8,
        img_pixels = map (\<lambda>k. \<lparr>px_b = of_nat k, px_g = 0, px_r = 0, px_a = 255\<rparr>) [0..<64]\<rparr>
       False
     = Inr \<lparr>img_stride = 8, img_w = 8, img_h = 8,
        img_pixels = map (\<lambda>k. \<lparr>px_b = of_nat k, px_g = 0, px_r = 0, px_a = 255\<rparr>)
          [0, 1, 8, 9, 2, 3, 10, 11, 16, 17, 24, 25, 18, 19, 26, 27, 4, 5, 12, 13, 6, 7, 14, 15,
           20, 21, 28, 29, 22, 23, 30, 31, 32, 33, 40, 41, 34, 35, 42, 43, 48, 49, 56, 57, 50,
           51, 58, 59, 36, 37, 44, 45, 38, 39, 46, 47, 52, 53, 60, 61, 54, 55, 62, 63]\<rparr>"
    by code_simp
  have "\<exists>img1. swizzle (\<lambda>j i. RGBA_zero)
             \<lparr>img_stride = 8, img_w = 8, img_h = 8,
              img_pixels = map (\<lambda>k. \<lparr>px_b = of_nat k, px_g = 0, px_r = 0, px_a = 255\<rparr>)
                             [0..<64]\<rparr> False = Inr img1
        \<and> swizzle (\<lambda>j i. RGBA_zero) img1 True =
            Inr \<lparr>img_stride = 8, img_w = 8, img_h = 8,
                 img_pixels = map (\<lambda>k. \<lparr>px_b = of_nat k, px_g = 0, px_r = 0, px_a = 255\<rparr>)
                                [0..<64]\<rparr>"
    using swizzle_involution[of
        "\<lparr>img_stride = 8, img_w = 8, img_h = 8,
          img_pixels = map (\<lambda>k. \<lparr>px_b = of_nat k, px_g = 0, px_r = 0, px_a = 255\<rparr>) [0..<64]\<rparr>"
        "\<lambda>j i. RGBA_zero" "\<lambda>j i. RGBA_zero"]
    by simp
  with e show ?thesis by (simp only: simp_thms)
qed


section \<open>The canvas in load\_image and process\_image\<close>

subsection \<open>Row 0 of the expanded canvas\<close>

text \<open>
  Claim C1 (the code breaks it). Whenever \<open>load_image\<close> expands the canvas and returns,
  the new canvas has the padded size, but its row 0 holds only zero pixels: the copy of row
  \<open>r\<close> copies \<open>img.stride * r\<close> pixels, which for row 0 is nothing. So the source's row 0
  does not appear in the new canvas (unless it is zero itself), against the claim that every
  row is copied intact.
\<close>

theorem load_image_row0_not_copied:
  assumes "load_image self img = Inr (self', new_img)"
    and "img_w img \<noteq> potCeil (img_w img) \<or> img_h img \<noteq> potCeil (img_h img)"
  shows "img_w new_img = potCeil (img_w img) \<and> img_h new_img = potCeil (img_h img)
       \<and> img_stride new_img = potCeil (img_w img)
       \<and> length (img_pixels new_img) = potCeil (img_w img) * potCeil (img_h img)
       \<and> (\<forall>c < potCeil (img_w img). img_pixels new_img ! c = RGBA_zero)"
proof -
  let ?ow = "potCeil (img_w img)" and ?oh = "potCeil (img_h img)"
  have le: "img_w img \<le> 1024" "img_h img \<le> 1024"
    using assms(1)
    by (auto simp: load_image_def max_image_width_def max_image_height_def split: if_splits)
  have sub: "subimage_data self = []"
    using assms(1) le
    by (auto simp: load_image_def max_image_width_def max_image_height_def Let_def
             split: if_splits)
  have c: "copy_rows (Image_new ?ow ?oh) img (img_h img) 0 = Inr new_img"
    using assms(1) load_image_expand[OF le sub assms(2)] by (auto split: sum.splits)
  note f = copy_rows_first_row[OF c]
  have oh: "0 < ?oh" using potCeil_ge_8[of "img_h img"] by simp
  have "take ?ow (img_pixels new_img) = take ?ow (replicate (?ow * ?oh) RGBA_zero)"
    using f by (simp add: Image_new_def)
  also have "\<dots> = replicate ?ow RGBA_zero" using oh by (simp add: min_def)
  finally have t: "take ?ow (img_pixels new_img) = replicate ?ow RGBA_zero" .
  have "img_pixels new_img ! c = RGBA_zero" if "c < ?ow" for c
  proof -
    have "take ?ow (img_pixels new_img) ! c = img_pixels new_img ! c" using that by simp
    then show ?thesis using that t by simp
  qed
  then show ?thesis using f by (simp add: Image_new_def)
qed

text \<open>
  An instance: a dense 2 x 2 image of four different non-zero pixels. The canvas is 8 x 8; its
  row 0 is zero although the source row 0 is not, and row 1 holds the source row 1.
\<close>

theorem load_image_row0_not_copied_witness:
  "\<exists>self' new_img.
     load_image Invocation_init
       \<lparr>img_stride = 2, img_w = 2, img_h = 2,
        img_pixels = [\<lparr>px_b = 1, px_g = 1, px_r = 1, px_a = 255\<rparr>,
                      \<lparr>px_b = 2, px_g = 2, px_r = 2, px_a = 255\<rparr>,
                      \<lparr>px_b = 3, px_g = 3, px_r = 3, px_a = 255\<rparr>,
                      \<lparr>px_b = 4, px_g = 4, px_r = 4, px_a = 255\<rparr>]\<rparr>
       = Inr (self', new_img)
     \<and> img_w new_img = 8 \<and> img_h new_img = 8
     \<and> img_pixels new_img ! 0 = RGBA_zero
     \<and> img_pixels new_img ! 0 \<noteq> \<lparr>px_b = 1, px_g = 1, px_r = 1, px_a = 255\<rparr>
     \<and> img_pixels new_img ! 1 = RGBA_zero
     \<and> img_pixels new_img ! 8 = \<lparr>px_b = 3, px_g = 3, px_r = 3, px_a = 255\<rparr>
     \<and> img_pixels new_img ! 9 = \<lparr>px_b = 4, px_g = 4, px_r = 4, px_a = 255\<rparr>"
proof -
  let ?img = "\<lparr>img_stride = 2, img_w = 2, img_h = 2,
        img_pixels = [\<lparr>px_b = 1, px_g = 1, px_r = 1, px_a = 255\<rparr>,
                      \<lparr>px_b = 2, px_g = 2, px_r = 2, px_a = 255\<rparr>,
                      \<lparr>px_b = 3, px_g = 3, px_r = 3, px_a = 255\<rparr>,
                      \<lparr>px_b = 4, px_g = 4, px_r = 4, px_a = 255\<rparr>]\<rparr>"
  have p: "potCeil 2 = 8" by (simp add: potCeil_def)
  have c: "copy_rows (Image_new 8 8) ?img 2 0 =
      Inr \<lparr>img_stride = 8, img_w = 8, img_h = 8,
           img_pixels = replicate 8 RGBA_zero @
             [\<lparr>px_b = 3, px_g = 3, px_r = 3, px_a = 255\<rparr>,
              \<lparr>px_b = 4, px_g = 4, px_r = 4, px_a = 255\<rparr>] @ replicate 54 RGBA_zero\<rparr>"
    by (simp add: copy_rows.simps memcpy_px_def vec_at_def Image_new_def)
  obtain self' new_img where l: "load_image Invocation_init ?img = Inr (self', new_img)"
    and n: "new_img = \<lparr>img_stride = 8, img_w = 8, img_h = 8,
           img_pixels = replicate 8 RGBA_zero @
             [\<lparr>px_b = 3, px_g = 3, px_r = 3, px_a = 255\<rparr>,
              \<lparr>px_b = 4, px_g = 4, px_r = 4, px_a = 255\<rparr>] @ replicate 54 RGBA_zero\<rparr>"
    using load_image_expand[of ?img Invocation_init] p c
    by (simp add: Invocation_init_def)
  have z: "RGBA_zero \<noteq> \<lparr>px_b = 1, px_g = 1, px_r = 1, px_a = 255\<rparr>"
    by (simp add: RGBA_zero_def)
  show ?thesis
    using load_image_row0_not_copied[OF l] l n p z
    by (intro exI[of _ self'] exI[of _ new_img]) (simp add: nth_append)
qed

subsection \<open>Which formats are swizzled\<close>

text \<open>
  Claim C10. On a canvas that passes the two assertions (with the canvas invariant of C2),
  \<open>process_image\<close> returns a canvas \<open>img1\<close> and encodes the tiles of \<open>img1\<close>, where
  \<open>img1\<close> is the input canvas when the format is \<open>ETC1\<close> or \<open>ETC1A4\<close> and the forward
  swizzle of the input canvas for every other format. In particular \<open>AUTO_ETC1\<close> and
  \<open>ETC1A4\<close> select the same encoder \<open>encode_etc1a4\<close>, but under \<open>AUTO_ETC1\<close> the encoder
  gets the swizzled canvas and under \<open>ETC1A4\<close> the canvas as it is.
\<close>

theorem process_image_swizzle_condition:
  assumes "img_w img \<le> img_stride img"
    and "img_stride img * img_h img \<le> length (img_pixels img)"
    and "8 dvd img_w img" "8 dvd img_h img"
  shows "(\<exists>img1.
            process_image E params self img =
              Inr (self\<lparr>image_data :=
                         snd (process_rows E params (select_process (process_format params)) img1
                                (img_h img) (img_w img) 0 (0, image_data self))\<rparr>, img1)
          \<and> ((process_format params = ETC1 \<or> process_format params = ETC1A4) \<and> img1 = img
               \<or> process_format params \<noteq> ETC1 \<and> process_format params \<noteq> ETC1A4
                 \<and> swizzle (undef_pixel E) img False = Inr img1))
       \<and> select_process AUTO_ETC1 = encode_etc1a4 \<and> select_process ETC1A4 = encode_etc1a4
       \<and> (\<exists>img1. swizzle (undef_pixel E) img False = Inr img1
             \<and> process_image E (params\<lparr>process_format := AUTO_ETC1\<rparr>) self img =
                 Inr (self\<lparr>image_data :=
                            snd (process_rows E (params\<lparr>process_format := AUTO_ETC1\<rparr>)
                                   encode_etc1a4 img1 (img_h img) (img_w img) 0
                                   (0, image_data self))\<rparr>, img1))
       \<and> process_image E (params\<lparr>process_format := ETC1A4\<rparr>) self img =
            Inr (self\<lparr>image_data :=
                       snd (process_rows E (params\<lparr>process_format := ETC1A4\<rparr>)
                              encode_etc1a4 img (img_h img) (img_w img) 0
                              (0, image_data self))\<rparr>, img)"
proof -
  have m: "img_w img mod 8 = 0" "img_h img mod 8 = 0"
    using assms(3,4) by (simp_all add: dvd_eq_mod_eq_0)
  obtain ps' where s: "swizzle (undef_pixel E) img False = Inr (img\<lparr>img_pixels := ps'\<rparr>)"
    using swizzle_swizzled[OF assms, of "undef_pixel E" False] by blast
  have gen: "\<exists>img1.
            process_image E q self img =
              Inr (self\<lparr>image_data :=
                         snd (process_rows E q (select_process (process_format q)) img1
                                (img_h img) (img_w img) 0 (0, image_data self))\<rparr>, img1)
          \<and> ((process_format q = ETC1 \<or> process_format q = ETC1A4) \<and> img1 = img
               \<or> process_format q \<noteq> ETC1 \<and> process_format q \<noteq> ETC1A4
                 \<and> swizzle (undef_pixel E) img False = Inr img1)" for q
  proof (cases "process_format q = ETC1 \<or> process_format q = ETC1A4")
    case True
    then show ?thesis
      using m by (intro exI[of _ img]) (auto simp: process_image_def Let_def)
  next
    case False
    then show ?thesis
      using m s by (intro exI[of _ "img\<lparr>img_pixels := ps'\<rparr>"]) (simp add: process_image_def Let_def)
  qed
  have auto: "\<exists>img1. swizzle (undef_pixel E) img False = Inr img1
             \<and> process_image E (params\<lparr>process_format := AUTO_ETC1\<rparr>) self img =
                 Inr (self\<lparr>image_data :=
                            snd (process_rows E (params\<lparr>process_format := AUTO_ETC1\<rparr>)
                                   encode_etc1a4 img1 (img_h img) (img_w img) 0
                                   (0, image_data self))\<rparr>, img1)"
    using m s by (intro exI[of _ "img\<lparr>img_pixels := ps'\<rparr>"]) (simp add: process_image_def Let_def)
  have a4: "process_image E (params\<lparr>process_format := ETC1A4\<rparr>) self img =
            Inr (self\<lparr>image_data :=
                       snd (process_rows E (params\<lparr>process_format := ETC1A4\<rparr>)
                              encode_etc1a4 img (img_h img) (img_w img) 0
                              (0, image_data self))\<rparr>, img)"
    using m by (simp add: process_image_def Let_def)
  show ?thesis using gen[of params] auto a4 by simp
qed

text \<open>
  An instance: the 8 x 8 canvas whose pixel \<open>k\<close> has blue value \<open>k\<close>, and an encoder that
  returns the blue value of the third pixel of its tile. Under \<open>AUTO_ETC1\<close> the encoder
  finds pixel 8 there (the canvas was swizzled), under \<open>ETC1A4\<close> pixel 2 (it was not).
\<close>

theorem process_image_swizzle_condition_witness:
  "(case process_image
     \<lparr>encode_tile = (\<lambda>f u px. [px_b (px ! (wu_p u + 2))]), lzssEncode = (\<lambda>src. []),
      lz11Encode = (\<lambda>src. []), huffEncode = (\<lambda>src. []), rleEncode = (\<lambda>src. []),
      encode_subimage = (\<lambda>sub x y. []), undef_pixel = (\<lambda>j i. RGBA_zero),
      fopen_ok = (\<lambda>path. True), fwrite_rc = (\<lambda>len n. n)\<rparr>
     \<lparr>output_path = [], process_format = AUTO_ETC1, etc1_quality = cMediumQuality,
      compression_format = COMPRESSION_AUTO, input_img = Image_new 0 0\<rparr>
     Invocation_init
     \<lparr>img_stride = 8, img_w = 8, img_h = 8,
      img_pixels = map (\<lambda>k. \<lparr>px_b = of_nat k, px_g = 0, px_r = 0, px_a = 255\<rparr>) [0..<64]\<rparr>
     of Inl e \<Rightarrow> [] | Inr r \<Rightarrow> image_data (fst r)) = [8]
   \<and> (case process_image
     \<lparr>encode_tile = (\<lambda>f u px. [px_b (px ! (wu_p u + 2))]), lzssEncode = (\<lambda>src. []),
      lz11Encode = (\<lambda>src. []), huffEncode = (\<lambda>src. []), rleEncode = (\<lambda>src. []),
      encode_subimage = (\<lambda>sub x y. []), undef_pixel = (\<lambda>j i. RGBA_zero),
      fopen_ok = (\<lambda>path. True), fwrite_rc = (\<lambda>len n. n)\<rparr>
     \<lparr>output_path = [], process_format = ETC1A4, etc1_quality = cMediumQuality,
      compression_format = COMPRESSION_AUTO, input_img = Image_new 0 0\<rparr>
     Invocation_init
     \<lparr>img_stride = 8, img_w = 8, img_h = 8,
      img_pixels = map (\<lambda>k. \<lparr>px_b = of_nat k, px_g = 0, px_r = 0, px_a = 255\<rparr>) [0..<64]\<rparr>
     of Inl e \<Rightarrow> [] | Inr r \<Rightarrow> image_data (fst r)) = [2]"
proof -
  have e: ?thesis by code_simp
  show ?thesis
    using process_image_swizzle_condition[of
      "\<lparr>img_stride = 8, img_w = 8, img_h = 8,
        img_pixels = map (\<lambda>k. \<lparr>px_b = of_nat k, px_g = 0, px_r = 0, px_a = 255\<rparr>) [0..<64]\<rparr>"
      "\<lparr>encode_tile = (\<lambda>f u px. [px_b (px ! (wu_p u + 2))]), lzssEncode = (\<lambda>src. []),
      lz11Encode = (\<lambda>src. []), huffEncode = (\<lambda>src. []), rleEncode = (\<lambda>src. []),
      encode_subimage = (\<lambda>sub x y. []), undef_pixel = (\<lambda>j i. RGBA_zero),
      fopen_ok = (\<lambda>path. True), fwrite_rc = (\<lambda>len n. n)\<rparr>"
      "\<lparr>output_path = [], process_format = AUTO_ETC1, etc1_quality = cMediumQuality,
      compression_format = COMPRESSION_AUTO, input_img = Image_new 0 0\<rparr>" Invocation_init] e
    by simp
qed


end
